theory Spec2Isabelle
  imports Main "HOL-Library.Word"
begin

unbundle bit_operations_syntax

section \<open>The lock-free ring buffer (Exercise4.c)\<close>

text \<open>
  \<open>size_t\<close> is an unsigned machine integer whose width the source leaves to the
  platform, so it is a word of any length \<open>'w\<close>: subtraction and increment wrap
  around, as the source relies on. Addresses are natural numbers with \<open>NULL = 0\<close>, and
  the memory the caller owns (the backing buffers, the elements handed to \<open>put\<close> and
  \<open>get\<close>) is one byte store. The table \<open>_rb\<close> and the counter \<open>idx\<close> are
  static objects of the module and live outside that store. \<open>RING_BUFFER_MAX\<close> is a
  macro that the source does not define: every operation takes it as its first
  argument. \<open>idx\<close> and descriptors never exceed it and are natural numbers.
\<close>

type_synonym u8 = "8 word"
type_synonym addr = nat
type_synonym memory = "addr \<Rightarrow> u8"

definition NULL :: addr where
  "NULL = 0"

record (overloaded) 'w rb_attr_t =
  attr_s_elem :: "'w word"
  attr_n_elem :: "'w word"
  attr_buffer :: addr

record (overloaded) 'w ring_buffer =
  s_elem :: "'w word"
  n_elem :: "'w word"
  buf :: addr
  head :: "'w word"
  tail :: "'w word"

record (overloaded) 'w rb_state =
  rb :: "nat \<Rightarrow> 'w ring_buffer"
  idx :: nat
  mem :: memory

text \<open>Static storage is zero-initialised: every entry of \<open>_rb\<close> starts with all fields 0.\<close>

definition rb_zero :: "'w::len ring_buffer" where
  "rb_zero = \<lparr>s_elem = 0, n_elem = 0, buf = NULL, head = 0, tail = 0\<rparr>"

definition rb_startup :: "memory \<Rightarrow> 'w::len rb_state" where
  "rb_startup m = \<lparr>rb = (\<lambda>_. rb_zero), idx = 0, mem = m\<rparr>"

text \<open>
  \<open>memcpy dst src n\<close>: the \<open>n\<close> bytes at \<open>src\<close> are read, then stored at \<open>dst\<close>
  (C leaves overlapping regions undefined; the model reads all bytes first).
\<close>

definition memcpy :: "memory \<Rightarrow> addr \<Rightarrow> addr \<Rightarrow> nat \<Rightarrow> memory" where
  "memcpy m dst src n = (\<lambda>a. if dst \<le> a \<and> a < dst + n then m (src + (a - dst)) else m a)"

definition read_bytes :: "memory \<Rightarrow> addr \<Rightarrow> nat \<Rightarrow> u8 list" where
  "read_bytes m a n = map (\<lambda>k. m (a + k)) [0..<n]"

text \<open>
  \<open>ring_buffer_init(rbd, attr)\<close>. A pointer argument is \<open>None\<close> when it is \<open>NULL\<close>;
  \<open>rbd\<close> carries the value the caller's descriptor variable holds, and the second
  component of the result is that variable after the call.
\<close>

definition ring_buffer_init ::
  "nat \<Rightarrow> 'w::len rb_state \<Rightarrow> nat option \<Rightarrow> 'w rb_attr_t option
     \<Rightarrow> int \<times> nat option \<times> 'w rb_state" where
  "ring_buffer_init RING_BUFFER_MAX st rbd attr =
     (case (idx st < RING_BUFFER_MAX, rbd, attr) of
        (True, Some _, Some a) \<Rightarrow>
          if attr_buffer a \<noteq> NULL \<and> attr_s_elem a > 0 then
            if (attr_n_elem a - 1) AND attr_n_elem a = 0 then
              (0, Some (idx st),
               st\<lparr>rb := (rb st)(idx st :=
                      \<lparr>s_elem = attr_s_elem a, n_elem = attr_n_elem a,
                       buf = attr_buffer a, head = 0, tail = 0\<rparr>),
                  idx := idx st + 1\<rparr>)
            else (- 1, rbd, st)
          else (- 1, rbd, st)
      | _ \<Rightarrow> (- 1, rbd, st))"

text \<open>The helpers \<open>_ring_buffer_full\<close> and \<open>_ring_buffer_empty\<close> (an identifier cannot
  start with an underscore here).\<close>

definition ring_buffer_full :: "'w::len ring_buffer \<Rightarrow> int" where
  "ring_buffer_full r = (if head r - tail r = n_elem r then 1 else 0)"

definition ring_buffer_empty :: "'w::len ring_buffer \<Rightarrow> int" where
  "ring_buffer_empty r = (if head r - tail r = 0 then 1 else 0)"

definition ring_buffer_put ::
  "nat \<Rightarrow> 'w::len rb_state \<Rightarrow> nat \<Rightarrow> addr \<Rightarrow> int \<times> 'w rb_state" where
  "ring_buffer_put RING_BUFFER_MAX st rbd data =
     (if rbd < RING_BUFFER_MAX \<and> ring_buffer_full (rb st rbd) = 0 then
        (let r = rb st rbd;
             offset = (head r AND (n_elem r - 1)) * s_elem r;
             m = memcpy (mem st) (buf r + unat offset) data (unat (s_elem r))
         in (0, st\<lparr>rb := (rb st)(rbd := r\<lparr>head := head r + 1\<rparr>), mem := m\<rparr>))
      else (- 1, st))"

definition ring_buffer_get ::
  "nat \<Rightarrow> 'w::len rb_state \<Rightarrow> nat \<Rightarrow> addr \<Rightarrow> int \<times> 'w rb_state" where
  "ring_buffer_get RING_BUFFER_MAX st rbd data =
     (if rbd < RING_BUFFER_MAX \<and> ring_buffer_empty (rb st rbd) = 0 then
        (let r = rb st rbd;
             offset = (tail r AND (n_elem r - 1)) * s_elem r;
             m = memcpy (mem st) data (buf r + unat offset) (unat (s_elem r))
         in (0, st\<lparr>rb := (rb st)(rbd := r\<lparr>tail := tail r + 1\<rparr>), mem := m\<rparr>))
      else (- 1, st))"

text \<open>
  The states the module can be in: the zeroed table at start-up, then any calls of the
  three functions with any arguments, and any stores of the caller to its own memory
  in between.
\<close>

inductive rb_reachable :: "nat \<Rightarrow> 'w::len rb_state \<Rightarrow> bool" for RING_BUFFER_MAX :: nat where
  startup: "rb_reachable RING_BUFFER_MAX (rb_startup m)"
| init: "rb_reachable RING_BUFFER_MAX st \<Longrightarrow>
         rb_reachable RING_BUFFER_MAX (snd (snd (ring_buffer_init RING_BUFFER_MAX st rbd attr)))"
| put: "rb_reachable RING_BUFFER_MAX st \<Longrightarrow>
        rb_reachable RING_BUFFER_MAX (snd (ring_buffer_put RING_BUFFER_MAX st rbd data))"
| get: "rb_reachable RING_BUFFER_MAX st \<Longrightarrow>
        rb_reachable RING_BUFFER_MAX (snd (ring_buffer_get RING_BUFFER_MAX st rbd data))"
| store: "rb_reachable RING_BUFFER_MAX st \<Longrightarrow> rb_reachable RING_BUFFER_MAX (st\<lparr>mem := m\<rparr>)"

subsection \<open>The queue a ring buffer holds\<close>

text \<open>
  The address of the slot that the counter value \<open>h\<close> selects, computed as \<open>put\<close> and
  \<open>get\<close> compute it, and the elements between \<open>tail\<close> and \<open>head\<close>, oldest first.
\<close>

definition slot :: "'w::len ring_buffer \<Rightarrow> 'w word \<Rightarrow> addr" where
  "slot r h = buf r + unat ((h AND (n_elem r - 1)) * s_elem r)"

definition rb_contents :: "'w::len rb_state \<Rightarrow> nat \<Rightarrow> u8 list list" where
  "rb_contents st rbd =
     (let r = rb st rbd
      in map (\<lambda>j. read_bytes (mem st) (slot r (tail r + of_nat j)) (unat (s_elem r)))
           [0..<unat (head r - tail r)])"

text \<open>
  The element count is \<open>2 ^ k\<close>, and the backing storage of \<open>s_elem * n_elem\<close> bytes
  that the caller must supply has a size that \<open>size_t\<close> can express.
\<close>

definition rb_geometry :: "nat \<Rightarrow> 'w::len ring_buffer \<Rightarrow> bool" where
  "rb_geometry k r \<longleftrightarrow>
     k < LENGTH('w) \<and> n_elem r = 2 ^ k \<and> unat (s_elem r) * 2 ^ k < 2 ^ LENGTH('w)"

text \<open>An element of the caller at address \<open>a\<close> that does not overlap the backing storage.\<close>

definition outside_buffer :: "'w::len ring_buffer \<Rightarrow> addr \<Rightarrow> bool" where
  "outside_buffer r a \<longleftrightarrow>
     a + unat (s_elem r) \<le> buf r \<or> buf r + unat (s_elem r) * unat (n_elem r) \<le> a"

text \<open>Calls in sequence: \<open>put\<close> of the elements at the given addresses, and \<open>get\<close> into
  the given addresses, where each result is paired with the element the caller then finds
  there.\<close>

fun put_all :: "nat \<Rightarrow> 'w::len rb_state \<Rightarrow> nat \<Rightarrow> addr list \<Rightarrow> int list \<times> 'w rb_state" where
  "put_all M st rbd [] = ([], st)"
| "put_all M st rbd (a # as) =
     (case ring_buffer_put M st rbd a of (e, st') \<Rightarrow>
        (case put_all M st' rbd as of (es, st'') \<Rightarrow> (e # es, st'')))"

fun get_all ::
  "nat \<Rightarrow> 'w::len rb_state \<Rightarrow> nat \<Rightarrow> addr list \<Rightarrow> (int \<times> u8 list) list \<times> 'w rb_state" where
  "get_all M st rbd [] = ([], st)"
| "get_all M st rbd (a # as) =
     (case ring_buffer_get M st rbd a of (e, st') \<Rightarrow>
        (case get_all M st' rbd as of (gs, st'') \<Rightarrow>
           ((e, read_bytes (mem st') a (unat (s_elem (rb st' rbd)))) # gs, st'')))"

text \<open>
  The scenario of the specification: element size 1, four elements, storage at address
  200; the caller's bytes \<open>a\<close> to \<open>f\<close> are at addresses 100 to 105. \<open>size_t\<close> has 16 bits
  here, as on the MSP430 the UART driver is written for.
\<close>

definition scenario_mem :: memory where
  "scenario_mem = (\<lambda>_. 0)(100 := 97, 101 := 98, 102 := 99, 103 := 100, 104 := 101, 105 := 102)"

definition scenario_start :: "16 rb_state" where
  "scenario_start =
     snd (snd (ring_buffer_init 1 (rb_startup scenario_mem) (Some 0)
       (Some \<lparr>attr_s_elem = 1, attr_n_elem = 4, attr_buffer = 200\<rparr>)))"

text \<open>A registry of two entries after one \<open>init\<close> with element count 0.\<close>

definition zero_start :: "16 rb_state" where
  "zero_start =
     snd (snd (ring_buffer_init 2 (rb_startup scenario_mem) (Some 0)
       (Some \<lparr>attr_s_elem = 1, attr_n_elem = 0, attr_buffer = 200\<rparr>)))"

subsection \<open>Two contexts\<close>

text \<open>
  \<open>put\<close> and \<open>get\<close> as the statements they consist of, so that a producer context and
  a consumer context can be interleaved. A context is idle, or it has passed the test of
  \<open>_ring_buffer_full\<close> (of \<open>_ring_buffer_empty\<close>) and is inside \<open>memcpy\<close>: it holds the
  pointer it was called with, the local \<open>offset\<close>, and the set of byte positions already
  copied. The test is one step: it reads one counter that the other context writes,
  and the counter of its own context, which nobody else writes. \<open>memcpy\<close> copies one
  byte in a step, in any order; the increment of \<open>head\<close> (of \<open>tail\<close>) is the last
  step of the call and can only be taken when all bytes are copied. Steps take effect
  in the order in which they are taken. The two logs record the elements of the calls that have returned 0: the bytes
  the producer handed to \<open>put\<close>, and the bytes the consumer finds where it asked
  \<open>get\<close> to store them.
\<close>

datatype ctx = Idle | Copying addr nat "nat set"

record (overloaded) 'w spsc =
  shared :: "'w rb_state"
  producer :: ctx
  consumer :: ctx
  put_log :: "u8 list list"
  get_log :: "u8 list list"



text \<open>
  One step of one of the two contexts on descriptor \<open>rbd\<close>. \<open>P\<close> is the memory of the
  producer context and \<open>C\<close> the memory of the consumer context: the element passed to
  \<open>put\<close> lies in \<open>P\<close>, the place passed to \<open>get\<close> lies in \<open>C\<close>, and between its
  calls a context may store to its own memory. A refused call (return value -1) is a
  step that changes nothing.
\<close>

inductive spsc_step ::
  "nat \<Rightarrow> nat \<Rightarrow> addr set \<Rightarrow> addr set \<Rightarrow> 'w::len spsc \<Rightarrow> 'w spsc \<Rightarrow> bool"
  for RING_BUFFER_MAX :: nat and rbd :: nat and P :: "addr set" and C :: "addr set" where
  put_refused:
    "producer c = Idle \<Longrightarrow>
     \<not> (rbd < RING_BUFFER_MAX \<and> ring_buffer_full (rb (shared c) rbd) = 0) \<Longrightarrow>
     spsc_step RING_BUFFER_MAX rbd P C c c"
| put_test:
    "producer c = Idle \<Longrightarrow>
     rbd < RING_BUFFER_MAX \<and> ring_buffer_full (rb (shared c) rbd) = 0 \<Longrightarrow>
     r = rb (shared c) rbd \<Longrightarrow>
     {data..<data + unat (s_elem r)} \<subseteq> P \<Longrightarrow>
     spsc_step RING_BUFFER_MAX rbd P C c
       (c\<lparr>producer := Copying data (unat ((head r AND (n_elem r - 1)) * s_elem r)) {}\<rparr>)"
| put_copy:
    "producer c = Copying data offset D \<Longrightarrow>
     r = rb (shared c) rbd \<Longrightarrow>
     i < unat (s_elem r) \<Longrightarrow> i \<notin> D \<Longrightarrow>
     spsc_step RING_BUFFER_MAX rbd P C c
       (c\<lparr>shared := (shared c)\<lparr>mem := (mem (shared c))
                   (buf r + offset + i := mem (shared c) (data + i))\<rparr>,
          producer := Copying data offset (insert i D)\<rparr>)"
| put_done:
    "producer c = Copying data offset D \<Longrightarrow>
     r = rb (shared c) rbd \<Longrightarrow>
     D = {..<unat (s_elem r)} \<Longrightarrow>
     spsc_step RING_BUFFER_MAX rbd P C c
       (c\<lparr>shared := (shared c)\<lparr>rb := (rb (shared c))(rbd := r\<lparr>head := head r + 1\<rparr>)\<rparr>,
          producer := Idle,
          put_log := put_log c @ [read_bytes (mem (shared c)) data (unat (s_elem r))]\<rparr>)"
| get_refused:
    "consumer c = Idle \<Longrightarrow>
     \<not> (rbd < RING_BUFFER_MAX \<and> ring_buffer_empty (rb (shared c) rbd) = 0) \<Longrightarrow>
     spsc_step RING_BUFFER_MAX rbd P C c c"
| get_test:
    "consumer c = Idle \<Longrightarrow>
     rbd < RING_BUFFER_MAX \<and> ring_buffer_empty (rb (shared c) rbd) = 0 \<Longrightarrow>
     r = rb (shared c) rbd \<Longrightarrow>
     {data..<data + unat (s_elem r)} \<subseteq> C \<Longrightarrow>
     spsc_step RING_BUFFER_MAX rbd P C c
       (c\<lparr>consumer := Copying data (unat ((tail r AND (n_elem r - 1)) * s_elem r)) {}\<rparr>)"
| get_copy:
    "consumer c = Copying data offset D \<Longrightarrow>
     r = rb (shared c) rbd \<Longrightarrow>
     i < unat (s_elem r) \<Longrightarrow> i \<notin> D \<Longrightarrow>
     spsc_step RING_BUFFER_MAX rbd P C c
       (c\<lparr>shared := (shared c)\<lparr>mem := (mem (shared c))
                   (data + i := mem (shared c) (buf r + offset + i))\<rparr>,
          consumer := Copying data offset (insert i D)\<rparr>)"
| get_done:
    "consumer c = Copying data offset D \<Longrightarrow>
     r = rb (shared c) rbd \<Longrightarrow>
     D = {..<unat (s_elem r)} \<Longrightarrow>
     spsc_step RING_BUFFER_MAX rbd P C c
       (c\<lparr>shared := (shared c)\<lparr>rb := (rb (shared c))(rbd := r\<lparr>tail := tail r + 1\<rparr>)\<rparr>,
          consumer := Idle,
          get_log := get_log c @ [read_bytes (mem (shared c)) data (unat (s_elem r))]\<rparr>)"
| producer_store:
    "producer c = Idle \<Longrightarrow> a \<in> P \<Longrightarrow>
     spsc_step RING_BUFFER_MAX rbd P C c
       (c\<lparr>shared := (shared c)\<lparr>mem := (mem (shared c))(a := v)\<rparr>\<rparr>)"
| consumer_store:
    "consumer c = Idle \<Longrightarrow> a \<in> C \<Longrightarrow>
     spsc_step RING_BUFFER_MAX rbd P C c
       (c\<lparr>shared := (shared c)\<lparr>mem := (mem (shared c))(a := v)\<rparr>\<rparr>)"



section \<open>The object pool (class \<open>k2lib::Pool\<close>)\<close>

text \<open>
  \<open>int\<close> and \<open>size_t\<close> have 32 bits. Indices and the counter are integers, with the
  conversions between the two types written out: an \<open>int\<close> converts to \<open>size_t\<close>
  modulo \<open>2 ^ 32\<close>, which is what the division and the remainder by the \<open>size_t\<close>
  constant \<open>BITS_IN_UINT8\<close> operate on. The template parameter \<open>SIZE\<close> is the first
  argument of every function. An access to \<open>info\<close> outside its \<open>NO_BYTES\<close> bytes is
  the result \<open>None\<close>. A pointer to \<open>T\<close> is an address; \<open>elements\<close> is the address of
  the array of the pool and \<open>sizeof_T\<close> the size of one element. The constructor's
  loop stores \<open>0xFF\<close> in each of the \<open>NO_BYTES\<close> bytes of \<open>info\<close>. The counter
  \<open>free_elements_cnt\<close> is incremented and decremented as an integer without a bound:
  no state considered here is near \<open>INT_MAX\<close>, where \<open>++\<close> would be undefined.
\<close>

definition INT_MAX :: int where
  "INT_MAX = 2 ^ 31 - 1"

definition to_size_t :: "int \<Rightarrow> int" where
  "to_size_t i = i mod 2 ^ 32"

definition to_int :: "int \<Rightarrow> int" where
  "to_int u = (if u mod 2 ^ 32 < 2 ^ 31 then u mod 2 ^ 32 else u mod 2 ^ 32 - 2 ^ 32)"

definition BITS_IN_UINT8 :: int where
  "BITS_IN_UINT8 = 8"

definition NO_BYTES :: "int \<Rightarrow> int" where
  "NO_BYTES SIZE = to_size_t (to_size_t SIZE + BITS_IN_UINT8 - 1) div BITS_IN_UINT8"

record pool =
  info :: "u8 list"
  free_elements_cnt :: int

definition Pool :: "int \<Rightarrow> pool" where
  "Pool SIZE = \<lparr>info = replicate (nat (NO_BYTES SIZE)) 0xFF, free_elements_cnt = SIZE\<rparr>"

definition testBit :: "int \<Rightarrow> pool \<Rightarrow> int \<Rightarrow> bool option" where
  "testBit SIZE p bit_index =
     (if bit_index \<ge> SIZE then Some False
      else
        let byte_offset = to_int (to_size_t bit_index div BITS_IN_UINT8);
            bit_index = to_int (to_size_t bit_index mod BITS_IN_UINT8)
        in if 0 \<le> byte_offset \<and> byte_offset < NO_BYTES SIZE
           then Some (0 \<noteq> (info p ! nat byte_offset AND push_bit (nat bit_index) 1))
           else None)"

definition setBit :: "int \<Rightarrow> pool \<Rightarrow> int \<Rightarrow> pool option" where
  "setBit SIZE p bit_index =
     (if bit_index \<ge> SIZE then Some p
      else
        let byte_offset = to_int (to_size_t bit_index div BITS_IN_UINT8);
            bit_index = to_int (to_size_t bit_index mod BITS_IN_UINT8)
        in if 0 \<le> byte_offset \<and> byte_offset < NO_BYTES SIZE
           then Some (p\<lparr>info := (info p)[nat byte_offset :=
                        info p ! nat byte_offset OR push_bit (nat bit_index) 1]\<rparr>)
           else None)"

definition clrBit :: "int \<Rightarrow> pool \<Rightarrow> int \<Rightarrow> pool option" where
  "clrBit SIZE p bit_index =
     (if bit_index \<ge> SIZE then Some p
      else
        let byte_offset = to_int (to_size_t bit_index div BITS_IN_UINT8);
            bit_index = to_int (to_size_t bit_index mod BITS_IN_UINT8)
        in if 0 \<le> byte_offset \<and> byte_offset < NO_BYTES SIZE
           then Some (p\<lparr>info := (info p)[nat byte_offset :=
                        info p ! nat byte_offset AND NOT (push_bit (nat bit_index) 1)]\<rparr>)
           else None)"

definition elem_addr :: "addr \<Rightarrow> nat \<Rightarrow> int \<Rightarrow> addr" where
  "elem_addr elements sizeof_T i = elements + nat i * sizeof_T"

function palloc_loop :: "int \<Rightarrow> addr \<Rightarrow> nat \<Rightarrow> pool \<Rightarrow> int \<Rightarrow> (addr \<times> pool) option" where
  "palloc_loop SIZE elements sizeof_T p i =
     (if i < SIZE then
        (case testBit SIZE p i of
           None \<Rightarrow> None
         | Some True \<Rightarrow>
             (case clrBit SIZE p i of
                None \<Rightarrow> None
              | Some p' \<Rightarrow>
                  Some (elem_addr elements sizeof_T i,
                        p'\<lparr>free_elements_cnt := free_elements_cnt p' - 1\<rparr>))
         | Some False \<Rightarrow> palloc_loop SIZE elements sizeof_T p (i + 1))
      else Some (NULL, p))"
  by pat_completeness auto
termination
  by (relation "measure (\<lambda>(SIZE, elements, sizeof_T, p, i). nat (SIZE - i))") auto

definition palloc :: "int \<Rightarrow> addr \<Rightarrow> nat \<Rightarrow> pool \<Rightarrow> (addr \<times> pool) option" where
  "palloc SIZE elements sizeof_T p =
     (if free_elements_cnt p \<le> 0 then Some (NULL, p)
      else palloc_loop SIZE elements sizeof_T p 0)"

function free_loop :: "int \<Rightarrow> addr \<Rightarrow> nat \<Rightarrow> pool \<Rightarrow> addr \<Rightarrow> int \<Rightarrow> pool option" where
  "free_loop SIZE elements sizeof_T p ptr i =
     (if i < SIZE then
        (if ptr = elem_addr elements sizeof_T i then
           (case setBit SIZE p i of
              None \<Rightarrow> None
            | Some p' \<Rightarrow>
                free_loop SIZE elements sizeof_T
                  (p'\<lparr>free_elements_cnt := free_elements_cnt p' + 1\<rparr>) NULL (i + 1))
         else free_loop SIZE elements sizeof_T p ptr (i + 1))
      else Some p)"
  by pat_completeness auto
termination
  by (relation "measure (\<lambda>(SIZE, elements, sizeof_T, p, ptr, i). nat (SIZE - i))") auto

definition free :: "int \<Rightarrow> addr \<Rightarrow> nat \<Rightarrow> pool \<Rightarrow> addr \<Rightarrow> pool option" where
  "free SIZE elements sizeof_T p ptr =
     (if NULL = ptr then Some p else free_loop SIZE elements sizeof_T p ptr 0)"

definition pool_size :: "pool \<Rightarrow> int" where
  "pool_size p = free_elements_cnt p"

declare palloc_loop.simps [simp del] free_loop.simps [simp del]

subsection \<open>Pool states\<close>

text \<open>
  The states a pool can be in: the constructed pool, then any calls of \<open>palloc\<close> and of
  \<open>free\<close> with any pointer that run without a fault.
\<close>

inductive pool_reachable :: "int \<Rightarrow> addr \<Rightarrow> nat \<Rightarrow> pool \<Rightarrow> bool"
  for SIZE :: int and elements :: addr and sizeof_T :: nat where
  construct: "pool_reachable SIZE elements sizeof_T (Pool SIZE)"
| alloc: "pool_reachable SIZE elements sizeof_T p \<Longrightarrow>
          palloc SIZE elements sizeof_T p = Some (a, p') \<Longrightarrow>
          pool_reachable SIZE elements sizeof_T p'"
| dealloc: "pool_reachable SIZE elements sizeof_T p \<Longrightarrow>
            free SIZE elements sizeof_T p ptr = Some p' \<Longrightarrow>
            pool_reachable SIZE elements sizeof_T p'"

text \<open>
  The states of a pool that is used as intended: \<open>free\<close> is only called with the
  address of a slot that is allocated at that moment.
\<close>

inductive pool_proper :: "int \<Rightarrow> addr \<Rightarrow> nat \<Rightarrow> pool \<Rightarrow> bool"
  for SIZE :: int and elements :: addr and sizeof_T :: nat where
  construct: "pool_proper SIZE elements sizeof_T (Pool SIZE)"
| alloc: "pool_proper SIZE elements sizeof_T p \<Longrightarrow>
          palloc SIZE elements sizeof_T p = Some (a, p') \<Longrightarrow>
          pool_proper SIZE elements sizeof_T p'"
| dealloc: "pool_proper SIZE elements sizeof_T p \<Longrightarrow>
            0 \<le> j \<Longrightarrow> j < SIZE \<Longrightarrow> testBit SIZE p j = Some False \<Longrightarrow>
            free SIZE elements sizeof_T p (elem_addr elements sizeof_T j) = Some p' \<Longrightarrow>
            pool_proper SIZE elements sizeof_T p'"

text \<open>\<open>n\<close> calls of \<open>palloc\<close> in sequence, with the pointers they return.\<close>

fun palloc_n :: "int \<Rightarrow> addr \<Rightarrow> nat \<Rightarrow> nat \<Rightarrow> pool \<Rightarrow> (addr list \<times> pool) option" where
  "palloc_n SIZE elements sizeof_T 0 p = Some ([], p)"
| "palloc_n SIZE elements sizeof_T (Suc n) p =
     (case palloc SIZE elements sizeof_T p of
        None \<Rightarrow> None
      | Some (a, p') \<Rightarrow>
          (case palloc_n SIZE elements sizeof_T n p' of
             None \<Rightarrow> None
           | Some (as, p'') \<Rightarrow> Some (a # as, p'')))"

text \<open>The number of bits that \<open>testBit\<close> reports as set among the indices \<open>0\<close> to
  \<open>SIZE - 1\<close>.\<close>

definition count_free :: "int \<Rightarrow> pool \<Rightarrow> int" where
  "count_free SIZE p = int (length (filter (\<lambda>i. testBit SIZE p i = Some True) [0..SIZE - 1]))"

text \<open>
  Notions of the proofs: bit \<open>i\<close> of the bitmap, an \<open>info\<close> array of the declared
  length, the set of free slots, and the pool in which exactly the first \<open>k\<close> slots are
  allocated.
\<close>

definition free_at :: "pool \<Rightarrow> int \<Rightarrow> bool" where
  "free_at p i = bit (info p ! nat (i div 8)) (nat (i mod 8))"

definition pool_wf :: "int \<Rightarrow> pool \<Rightarrow> bool" where
  "pool_wf SIZE p \<longleftrightarrow> length (info p) = nat (NO_BYTES SIZE)"

definition free_set :: "int \<Rightarrow> pool \<Rightarrow> int set" where
  "free_set SIZE p = {i. 0 \<le> i \<and> i < SIZE \<and> free_at p i}"

definition allocated_below :: "int \<Rightarrow> nat \<Rightarrow> pool \<Rightarrow> bool" where
  "allocated_below SIZE k p \<longleftrightarrow>
     pool_wf SIZE p \<and> free_elements_cnt p = SIZE - int k \<and>
     (\<forall>i. 0 \<le> i \<and> i < SIZE \<longrightarrow> free_at p i = (int k \<le> i))"

section \<open>Properties of the ring buffer\<close>

subsection \<open>Occupancy\<close>

lemma init_cases:
  "ring_buffer_init M st rbd attr = (- 1, rbd, st) \<or>
   (\<exists>a. attr = Some a \<and> idx st < M \<and>
        ring_buffer_init M st rbd attr =
          (0, Some (idx st),
           st\<lparr>rb := (rb st)(idx st :=
                  \<lparr>s_elem = attr_s_elem a, n_elem = attr_n_elem a,
                   buf = attr_buffer a, head = 0, tail = 0\<rparr>),
              idx := idx st + 1\<rparr>))"
  by (auto simp: ring_buffer_init_def split: bool.splits option.splits)

lemma occupancy_put:
  fixes h t n :: "'w::len word"
  assumes "unat (h - t) \<le> unat n" and "h - t \<noteq> n"
  shows "unat (h + 1 - t) = unat (h - t) + 1" and "unat (h + 1 - t) \<le> unat n"
proof -
  have lt: "unat (h - t) < unat n"
    using assms by (simp add: word_unat_eq_iff)
  have "unat n < 2 ^ LENGTH('w)" by (rule unsigned_less)
  with lt have "unat (h - t) + 1 < 2 ^ LENGTH('w)" by linarith
  then have "unat ((h - t) + 1) = unat (h - t) + 1"
    by (simp add: unat_add_lem [THEN iffD1])
  moreover have "h + 1 - t = (h - t) + 1" by simp
  ultimately show eq: "unat (h + 1 - t) = unat (h - t) + 1" by (simp only:)
  with lt show "unat (h + 1 - t) \<le> unat n" by simp
qed

lemma occupancy_get:
  fixes h t :: "'w::len word"
  assumes "h - t \<noteq> 0"
  shows "unat (h - (t + 1)) = unat (h - t) - 1"
proof -
  have "h - (t + 1) = (h - t) - 1" by simp
  moreover have "unat ((h - t) - 1) = unat (h - t) - 1"
    using assms by (rule unat_minus_one)
  ultimately show ?thesis by (simp only:)
qed

lemma put_success:
  assumes "rbd < M" and "head (rb st rbd) - tail (rb st rbd) \<noteq> n_elem (rb st rbd)"
  shows "ring_buffer_put M st rbd data =
    (0, st\<lparr>rb := (rb st)(rbd := (rb st rbd)\<lparr>head := head (rb st rbd) + 1\<rparr>),
           mem := memcpy (mem st)
                    (buf (rb st rbd) +
                     unat ((head (rb st rbd) AND (n_elem (rb st rbd) - 1)) * s_elem (rb st rbd)))
                    data (unat (s_elem (rb st rbd)))\<rparr>)"
  using assms by (simp add: ring_buffer_put_def ring_buffer_full_def Let_def)

lemma put_failure:
  assumes "\<not> rbd < M \<or> head (rb st rbd) - tail (rb st rbd) = n_elem (rb st rbd)"
  shows "ring_buffer_put M st rbd data = (- 1, st)"
  using assms by (auto simp: ring_buffer_put_def ring_buffer_full_def)

lemma get_success:
  assumes "rbd < M" and "head (rb st rbd) - tail (rb st rbd) \<noteq> 0"
  shows "ring_buffer_get M st rbd data =
    (0, st\<lparr>rb := (rb st)(rbd := (rb st rbd)\<lparr>tail := tail (rb st rbd) + 1\<rparr>),
           mem := memcpy (mem st) data
                    (buf (rb st rbd) +
                     unat ((tail (rb st rbd) AND (n_elem (rb st rbd) - 1)) * s_elem (rb st rbd)))
                    (unat (s_elem (rb st rbd)))\<rparr>)"
  using assms by (simp add: ring_buffer_get_def ring_buffer_empty_def Let_def)

lemma get_failure:
  assumes "\<not> rbd < M \<or> head (rb st rbd) - tail (rb st rbd) = 0"
  shows "ring_buffer_get M st rbd data = (- 1, st)"
  using assms by (auto simp: ring_buffer_get_def ring_buffer_empty_def)

lemma reachable_occupancy:
  "rb_reachable M st \<Longrightarrow> unat (head (rb st d) - tail (rb st d)) \<le> unat (n_elem (rb st d))"
proof (induction arbitrary: d rule: rb_reachable.induct)
  case (startup m)
  show ?case by (simp add: rb_startup_def rb_zero_def)
next
  case (init st rbd attr)
  from init_cases [of M st rbd attr] init.IH show ?case
    by (elim disjE exE conjE) (simp_all)
next
  case (put st rbd data)
  show ?case
  proof (cases "rbd < M \<and> head (rb st rbd) - tail (rb st rbd) \<noteq> n_elem (rb st rbd)")
    case True
    then have ok: "rbd < M" and nf: "head (rb st rbd) - tail (rb st rbd) \<noteq> n_elem (rb st rbd)"
      by simp_all
    from occupancy_put(2) [OF put.IH [of rbd] nf] put.IH [of d] show ?thesis
      by (simp add: put_success [OF ok nf])
  next
    case False
    then have "ring_buffer_put M st rbd data = (- 1, st)"
      by (intro put_failure) simp
    with put.IH show ?thesis by simp
  qed
next
  case (get st rbd data)
  show ?case
  proof (cases "rbd < M \<and> head (rb st rbd) - tail (rb st rbd) \<noteq> 0")
    case True
    then have ok: "rbd < M" and ne: "head (rb st rbd) - tail (rb st rbd) \<noteq> 0"
      by simp_all
    from occupancy_get [OF ne] get.IH [of rbd] get.IH [of d] show ?thesis
      by (auto simp: get_success [OF ok ne])
  next
    case False
    then have "ring_buffer_get M st rbd data = (- 1, st)"
      by (intro get_failure) simp
    with get.IH show ?thesis by simp
  qed
next
  case (store st m)
  then show ?case by simp
qed

lemma put_keeps:
  "idx (snd (ring_buffer_put M st rbd data)) = idx st"
  "d \<noteq> rbd \<Longrightarrow> rb (snd (ring_buffer_put M st rbd data)) d = rb st d"
  by (simp_all add: ring_buffer_put_def Let_def)

lemma get_keeps:
  "idx (snd (ring_buffer_get M st rbd data)) = idx st"
  "d \<noteq> rbd \<Longrightarrow> rb (snd (ring_buffer_get M st rbd data)) d = rb st d"
  by (simp_all add: ring_buffer_get_def Let_def)

lemma reachable_unused:
  "rb_reachable M st \<Longrightarrow> idx st \<le> d \<Longrightarrow> rb st d = rb_zero"
proof (induction arbitrary: d rule: rb_reachable.induct)
  case (startup m)
  show ?case by (simp add: rb_startup_def)
next
  case (init st rbd attr)
  from init_cases [of M st rbd attr] init.IH [of d] init.prems show ?case
    by (elim disjE exE conjE) simp_all
next
  case (put st rbd data)
  show ?case
  proof (cases "idx st \<le> rbd")
    case True
    then have "rb st rbd = rb_zero" by (rule put.IH)
    then have "ring_buffer_put M st rbd data = (- 1, st)"
      by (intro put_failure) (simp add: rb_zero_def)
    with put.IH [of d] put.prems show ?thesis by simp
  next
    case False
    from put.prems have le: "idx st \<le> d" by (simp add: put_keeps)
    with False have "d \<noteq> rbd" by auto
    with put.IH [OF le] show ?thesis by (simp add: put_keeps)
  qed
next
  case (get st rbd data)
  show ?case
  proof (cases "idx st \<le> rbd")
    case True
    then have "rb st rbd = rb_zero" by (rule get.IH)
    then have "ring_buffer_get M st rbd data = (- 1, st)"
      by (intro get_failure) (simp add: rb_zero_def)
    with get.IH [of d] get.prems show ?thesis by simp
  next
    case False
    from get.prems have le: "idx st \<le> d" by (simp add: get_keeps)
    with False have "d \<noteq> rbd" by auto
    with get.IH [OF le] show ?thesis by (simp add: get_keeps)
  qed
next
  case (store st m)
  then show ?case by simp
qed

lemma scenario_reachable: "rb_reachable 1 scenario_start"
  unfolding scenario_start_def by (intro rb_reachable.init rb_reachable.startup)

lemma scenario_entry:
  "rb scenario_start 0 = \<lparr>s_elem = 1, n_elem = 4, buf = 200, head = 0, tail = 0\<rparr>"
  "mem scenario_start = scenario_mem" "idx scenario_start = 1"
  by (simp_all add: scenario_start_def ring_buffer_init_def rb_startup_def NULL_def)

text \<open>
  Claim C6. In every state the module can reach, the difference \<open>head - tail\<close>, taken
  modulo the width of \<open>size_t\<close>, is at most \<open>n_elem\<close> for every entry; and for a
  descriptor below \<open>RING_BUFFER_MAX\<close>, \<open>put\<close> fails exactly when the difference is
  \<open>n_elem\<close> and \<open>get\<close> fails exactly when it is 0.
\<close>

theorem occupancy_bounded:
  fixes st :: "'w::len rb_state"
  assumes "rb_reachable M st"
  shows "unat (head (rb st rbd) - tail (rb st rbd)) \<le> unat (n_elem (rb st rbd)) \<and>
    (rbd < M \<longrightarrow>
       (fst (ring_buffer_put M st rbd a) = - 1
          \<longleftrightarrow> head (rb st rbd) - tail (rb st rbd) = n_elem (rb st rbd)) \<and>
       (fst (ring_buffer_get M st rbd b) = - 1
          \<longleftrightarrow> head (rb st rbd) - tail (rb st rbd) = 0))"
proof -
  have "fst (ring_buffer_put M st rbd a) = - 1
      \<longleftrightarrow> head (rb st rbd) - tail (rb st rbd) = n_elem (rb st rbd)" if "rbd < M"
    using that by (simp add: ring_buffer_put_def ring_buffer_full_def Let_def)
  moreover have "fst (ring_buffer_get M st rbd b) = - 1
      \<longleftrightarrow> head (rb st rbd) - tail (rb st rbd) = 0" if "rbd < M"
    using that by (simp add: ring_buffer_get_def ring_buffer_empty_def Let_def)
  ultimately show ?thesis
    using reachable_occupancy [OF assms, of rbd] by blast
qed

text \<open>The scenario's buffer after one \<open>put\<close>: one element of four, neither full nor empty.\<close>

theorem occupancy_bounded_witness:
  "rb_reachable 1 (snd (ring_buffer_put 1 scenario_start 0 100)) \<and>
   unat (head (rb (snd (ring_buffer_put 1 scenario_start 0 100)) 0)
       - tail (rb (snd (ring_buffer_put 1 scenario_start 0 100)) 0)) = 1 \<and>
   n_elem (rb (snd (ring_buffer_put 1 scenario_start 0 100)) 0) = 4 \<and>
   fst (ring_buffer_put 1 (snd (ring_buffer_put 1 scenario_start 0 100)) 0 101) \<noteq> - 1 \<and>
   fst (ring_buffer_get 1 (snd (ring_buffer_put 1 scenario_start 0 100)) 0 300) \<noteq> - 1"
proof -
  let ?st = "snd (ring_buffer_put 1 scenario_start 0 100)"
  have r: "rb_reachable 1 ?st"
    by (intro rb_reachable.put scenario_reachable)
  have e: "head (rb ?st 0) = 1" "tail (rb ?st 0) = 0" "n_elem (rb ?st 0) = 4"
    by (simp_all add: ring_buffer_put_def ring_buffer_full_def scenario_entry Let_def)
  from occupancy_bounded [OF r, of 0 101 300] r e show ?thesis
    by simp
qed

subsection \<open>Initialisation\<close>

lemma init_success_iff:
  "fst (ring_buffer_init M st rbd attr) = 0 \<longleftrightarrow>
     idx st < M \<and> rbd \<noteq> None \<and>
     (\<exists>a. attr = Some a \<and> attr_buffer a \<noteq> NULL \<and> 0 < attr_s_elem a \<and>
          (attr_n_elem a - 1) AND attr_n_elem a = 0)"
  by (auto simp: ring_buffer_init_def split: bool.splits option.splits)

lemma init_failure_unchanged:
  "fst (ring_buffer_init M st rbd attr) \<noteq> 0 \<Longrightarrow> ring_buffer_init M st rbd attr = (- 1, rbd, st)"
  using init_cases [of M st rbd attr] by auto

lemma init_full_registry:
  "M \<le> idx st \<Longrightarrow> ring_buffer_init M st rbd attr = (- 1, rbd, st)"
  by (simp add: ring_buffer_init_def split: bool.splits)

lemma init_count_check:
  "((n - 1) AND n = 0) = (n \<in> {1, 2, 4, 8, 16})" if "n \<in> {1, 2, 3, 4, 5, 6, 7, 8, 16}"
  for n :: "16 word"
  using that by auto

text \<open>
  Claim C5 says that \<open>init\<close> succeeds exactly when, among the other conditions, the
  element count is a power of two. The check \<open>(n_elem - 1) & n_elem == 0\<close> also holds
  for the count 0, which is no power of two: on a fresh registry with room, non-null
  pointers and element size 1, \<open>init\<close> with element count 0 returns 0, issues
  descriptor 0 and advances \<open>idx\<close>.
\<close>

theorem init_zero_count:
  "ring_buffer_init 1 (rb_startup scenario_mem :: 16 rb_state) (Some 0)
      (Some \<lparr>attr_s_elem = 1, attr_n_elem = 0, attr_buffer = 200\<rparr>) =
   (0, Some 0,
    \<lparr>rb = (\<lambda>_. rb_zero)(0 := \<lparr>s_elem = 1, n_elem = 0, buf = 200, head = 0, tail = 0\<rparr>),
     idx = 1, mem = scenario_mem\<rparr>)"
  by (simp add: ring_buffer_init_def rb_startup_def NULL_def)

text \<open>
  Claim C10. \<open>init\<close> accepts the element count 0 and issues a descriptor for it. In
  every reachable state an entry below \<open>RING_BUFFER_MAX\<close> whose element count is 0 has
  \<open>head = tail\<close>, so it is full and empty at once: every \<open>put\<close> and every \<open>get\<close>
  on it returns -1 and leaves the whole state as it was. The entries that \<open>init\<close> has
  not yet handed out have element count 0.
\<close>

theorem zero_count_entry:
  fixes st :: "'w::len rb_state"
  shows "(idx st < M \<and> attr_buffer a \<noteq> NULL \<and> 0 < attr_s_elem a \<and> attr_n_elem a = 0 \<longrightarrow>
       ring_buffer_init M st (Some v) (Some a) =
         (0, Some (idx st),
          st\<lparr>rb := (rb st)(idx st :=
                 \<lparr>s_elem = attr_s_elem a, n_elem = 0, buf = attr_buffer a, head = 0, tail = 0\<rparr>),
             idx := idx st + 1\<rparr>)) \<and>
    (rb_reachable M st \<and> rbd < M \<and> n_elem (rb st rbd) = 0 \<longrightarrow>
       head (rb st rbd) = tail (rb st rbd) \<and>
       ring_buffer_full (rb st rbd) = 1 \<and> ring_buffer_empty (rb st rbd) = 1 \<and>
       ring_buffer_put M st rbd x = (- 1, st) \<and> ring_buffer_get M st rbd y = (- 1, st)) \<and>
    (rb_reachable M st \<and> idx st \<le> rbd \<longrightarrow> n_elem (rb st rbd) = 0)"
proof (intro conjI impI)
  assume "idx st < M \<and> attr_buffer a \<noteq> NULL \<and> 0 < attr_s_elem a \<and> attr_n_elem a = 0"
  then show "ring_buffer_init M st (Some v) (Some a) =
         (0, Some (idx st),
          st\<lparr>rb := (rb st)(idx st :=
                 \<lparr>s_elem = attr_s_elem a, n_elem = 0, buf = attr_buffer a, head = 0, tail = 0\<rparr>),
             idx := idx st + 1\<rparr>)"
    by (simp add: ring_buffer_init_def)
next
  assume a: "rb_reachable M st \<and> rbd < M \<and> n_elem (rb st rbd) = 0"
  with reachable_occupancy [of M st rbd]
  have "unat (head (rb st rbd) - tail (rb st rbd)) = 0" by simp
  then have z: "head (rb st rbd) - tail (rb st rbd) = 0"
    by (simp add: unat_eq_0)
  then show "head (rb st rbd) = tail (rb st rbd)" by simp
  from z a show "ring_buffer_full (rb st rbd) = 1" "ring_buffer_empty (rb st rbd) = 1"
    by (simp_all add: ring_buffer_full_def ring_buffer_empty_def)
  from z a show "ring_buffer_put M st rbd x = (- 1, st)"
    by (intro put_failure) simp
  from z show "ring_buffer_get M st rbd y = (- 1, st)"
    by (intro get_failure) simp
next
  assume "rb_reachable M st \<and> idx st \<le> rbd"
  then have "rb st rbd = rb_zero" using reachable_unused by blast
  then show "n_elem (rb st rbd) = 0" by (simp add: rb_zero_def)
qed

text \<open>Entry 0 was initialised with count 0, entry 1 never: all four calls fail.\<close>

theorem zero_count_entry_witness:
  "fst (ring_buffer_init 2 (rb_startup scenario_mem :: 16 rb_state) (Some 0)
       (Some \<lparr>attr_s_elem = 1, attr_n_elem = 0, attr_buffer = 200\<rparr>)) = 0 \<and>
   rb_reachable 2 zero_start \<and> idx zero_start = 1 \<and>
   n_elem (rb zero_start 0) = 0 \<and> n_elem (rb zero_start 1) = 0 \<and>
   ring_buffer_put 2 zero_start 0 100 = (- 1, zero_start) \<and>
   ring_buffer_get 2 zero_start 0 300 = (- 1, zero_start) \<and>
   ring_buffer_put 2 zero_start 1 100 = (- 1, zero_start) \<and>
   ring_buffer_get 2 zero_start 1 300 = (- 1, zero_start)"
proof -
  let ?a = "\<lparr>attr_s_elem = 1 :: 16 word, attr_n_elem = 0, attr_buffer = 200\<rparr>"
  have r: "rb_reachable 2 zero_start"
    unfolding zero_start_def by (intro rb_reachable.init rb_reachable.startup)
  have i: "idx zero_start = 1" and n: "n_elem (rb zero_start 0) = 0"
    by (simp_all add: zero_start_def ring_buffer_init_def rb_startup_def NULL_def)
  have s: "idx (rb_startup scenario_mem :: 16 rb_state) < 2 \<and> attr_buffer ?a \<noteq> NULL \<and>
      0 < attr_s_elem ?a \<and> attr_n_elem ?a = 0"
    by (simp add: rb_startup_def NULL_def)
  from zero_count_entry [where st = "rb_startup scenario_mem" and M = 2 and a = ?a and v = 0
      and rbd = 0 and x = 100 and y = 300] s
  have a: "fst (ring_buffer_init 2 (rb_startup scenario_mem :: 16 rb_state) (Some 0) (Some ?a)) = 0"
    by simp
  from zero_count_entry [where st = zero_start and M = 2 and a = ?a and rbd = 0
      and x = 100 and y = 300] r n
  have b: "ring_buffer_put 2 zero_start 0 100 = (- 1, zero_start)"
    "ring_buffer_get 2 zero_start 0 300 = (- 1, zero_start)"
    by simp_all
  from zero_count_entry [where st = zero_start and M = 2 and a = ?a and rbd = 1
      and x = 100 and y = 300] r i
  have c: "n_elem (rb zero_start 1) = 0"
    "ring_buffer_put 2 zero_start 1 100 = (- 1, zero_start)"
    "ring_buffer_get 2 zero_start 1 300 = (- 1, zero_start)"
    by simp_all
  from a b c r i n show ?thesis by simp
qed

subsection \<open>First in, first out\<close>

lemma unat_and_pow2_mask:
  fixes h :: "'w::len word"
  shows "unat (h AND (2 ^ k - 1)) = unat h mod 2 ^ k"
proof -
  have "h AND (2 ^ k - 1) = take_bit k h"
    by (simp only: take_bit_eq_mask mask_eq_exp_minus_1)
  moreover have "unat (take_bit k h) = take_bit k (unat h)"
    by (rule unsigned_take_bit_eq)
  moreover have "take_bit k (unat h) = unat h mod 2 ^ k"
    by (rule take_bit_eq_mod)
  ultimately show ?thesis by (simp only:)
qed

lemma unat_mult_small:
  fixes x s :: "'w::len word"
  assumes "unat x < c" and "unat s * c < 2 ^ LENGTH('w)"
  shows "unat (x * s) = unat x * unat s"
proof -
  have "unat x * unat s \<le> c * unat s"
    using assms(1) by (intro mult_le_mono1) simp
  also have "\<dots> < 2 ^ LENGTH('w)"
    using assms(2) by (simp add: mult.commute)
  finally show ?thesis
    by (simp add: unat_mult_lem [THEN iffD1])
qed

lemma unat_add_of_nat_mod:
  fixes h :: "'w::len word"
  assumes "k \<le> LENGTH('w)"
  shows "unat (h + of_nat j) mod 2 ^ k = (unat h + j) mod 2 ^ k"
proof -
  have d: "(2::nat) ^ k dvd 2 ^ LENGTH('w)"
    using assms by (simp add: le_imp_power_dvd)
  have "unat (h + of_nat j) = (unat h + j) mod 2 ^ LENGTH('w)"
    by (simp add: unat_word_ariths unat_of_nat mod_add_right_eq)
  then show ?thesis
    using d by (simp add: mod_mod_cancel)
qed

lemma unat_pow2: "k < LENGTH('w) \<Longrightarrow> unat (2 ^ k :: 'w::len word) = 2 ^ k"
  by (simp add: of_nat_inverse)

lemma slot_eq:
  fixes r :: "'w::len ring_buffer"
  assumes "rb_geometry k r"
  shows "slot r h = buf r + (unat h mod 2 ^ k) * unat (s_elem r)"
proof -
  from assms have n: "n_elem r = 2 ^ k"
    and fit: "unat (s_elem r) * 2 ^ k < 2 ^ LENGTH('w)"
    by (simp_all add: rb_geometry_def)
  have ix: "unat (h AND (n_elem r - 1)) = unat h mod 2 ^ k"
    unfolding n by (rule unat_and_pow2_mask)
  then have "unat (h AND (n_elem r - 1)) < 2 ^ k" by simp
  from unat_mult_small [OF this fit] ix show ?thesis
    by (simp add: slot_def)
qed

lemma slot_offset:
  fixes r :: "'w::len ring_buffer"
  assumes "rb_geometry k r"
  shows "slot r (t + of_nat j) = buf r + ((unat t + j) mod 2 ^ k) * unat (s_elem r)"
proof -
  from assms have "k \<le> LENGTH('w)" by (simp add: rb_geometry_def)
  from unat_add_of_nat_mod [OF this] slot_eq [OF assms] show ?thesis by simp
qed

lemma read_memcpy_same: "read_bytes (memcpy m dst src n) dst n = read_bytes m src n"
  by (simp add: read_bytes_def memcpy_def)

lemma read_memcpy_other:
  assumes "a + n \<le> dst \<or> dst + n' \<le> a"
  shows "read_bytes (memcpy m dst src n') a n = read_bytes m a n"
  using assms by (auto simp: read_bytes_def memcpy_def)

lemma slots_apart:
  fixes i j s b :: nat
  assumes "i \<noteq> j"
  shows "b + i * s + s \<le> b + j * s \<or> b + j * s + s \<le> b + i * s"
proof (cases "i < j")
  case True
  then have "Suc i * s \<le> j * s" by (intro mult_le_mono1) simp
  then show ?thesis by simp
next
  case False
  with assms have "Suc j * s \<le> i * s" by (intro mult_le_mono1) simp
  then show ?thesis by simp
qed

lemma slot_inside:
  fixes i c s b :: nat
  assumes "i < c"
  shows "b + i * s + s \<le> b + s * c"
proof -
  from assms have "Suc i * s \<le> c * s" by (intro mult_le_mono1) simp
  then show ?thesis by (simp add: mult.commute)
qed

lemma mod_shift_neq:
  fixes t j d c :: nat
  assumes "j < d" and "d < c"
  shows "(t + j) mod c \<noteq> (t + d) mod c"
proof
  assume "(t + j) mod c = (t + d) mod c"
  then have "c dvd (t + d) - (t + j)"
    using assms by (metis mod_eq_dvd_iff_nat add_le_cancel_left less_imp_le_nat)
  then have "c dvd d - j" by simp
  moreover have "0 < d - j" "d - j < c" using assms by simp_all
  ultimately show False by (simp add: dvd_imp_le leD)
qed

lemma contents_length: "length (rb_contents st rbd) = unat (head (rb st rbd) - tail (rb st rbd))"
  by (simp add: rb_contents_def Let_def)

lemma contents_eq:
  fixes st :: "'w::len rb_state"
  assumes "rb_geometry k (rb st rbd)"
  shows "rb_contents st rbd =
    map (\<lambda>j. read_bytes (mem st)
                (buf (rb st rbd) + ((unat (tail (rb st rbd)) + j) mod 2 ^ k) * unat (s_elem (rb st rbd)))
                (unat (s_elem (rb st rbd))))
      [0..<unat (head (rb st rbd) - tail (rb st rbd))]"
  by (simp add: rb_contents_def Let_def slot_offset [OF assms])

lemma put_step:
  fixes st :: "'w::len rb_state"
  assumes g: "rb_geometry k (rb st rbd)" and ok: "rbd < M"
    and room: "length (rb_contents st rbd) < 2 ^ k"
  obtains st' where "ring_buffer_put M st rbd a = (0, st')"
    and "rb_contents st' rbd = rb_contents st rbd @ [read_bytes (mem st) a (unat (s_elem (rb st rbd)))]"
    and "s_elem (rb st' rbd) = s_elem (rb st rbd)"
    and "n_elem (rb st' rbd) = n_elem (rb st rbd)"
    and "buf (rb st' rbd) = buf (rb st rbd)"
    and "\<And>x. x < buf (rb st rbd) \<or> buf (rb st rbd) + unat (s_elem (rb st rbd)) * 2 ^ k \<le> x
            \<Longrightarrow> mem st' x = mem st x"
proof -
  define r where "r = rb st rbd"
  define d where "d = unat (head r - tail r)"
  define s where "s = unat (s_elem r)"
  define t where "t = unat (tail r)"
  define b where "b = buf r"
  define st' where "st' = st\<lparr>rb := (rb st)(rbd := r\<lparr>head := head r + 1\<rparr>),
           mem := memcpy (mem st) (slot r (head r)) a s\<rparr>"
  from g have klen: "k < LENGTH('w)" and n: "n_elem r = 2 ^ k"
    by (simp_all add: rb_geometry_def r_def)
  have un: "unat (n_elem r) = 2 ^ k"
    unfolding n using klen by (rule unat_pow2)
  from room have dlt: "d < 2 ^ k"
    by (simp add: contents_length d_def r_def)
  then have nf: "head r - tail r \<noteq> n_elem r"
    using un by (auto simp: d_def)
  have res: "ring_buffer_put M st rbd a = (0, st')"
    using put_success [OF ok, of st a] nf by (simp add: r_def st'_def slot_def s_def)
  have g': "rb_geometry k (rb st' rbd)"
    using g by (simp add: st'_def rb_geometry_def r_def)
  have d': "unat (head (rb st' rbd) - tail (rb st' rbd)) = d + 1"
    using occupancy_put(1) [of "head r" "tail r" "n_elem r"] nf dlt un
    by (simp add: st'_def d_def)
  have hd: "head r = tail r + of_nat d"
    by (simp add: d_def)
  have sl: "slot r (head r) = b + ((t + d) mod 2 ^ k) * s"
    using slot_offset [OF g, of "tail r" d] hd by (simp add: r_def b_def t_def s_def)
  have old: "read_bytes (mem st') (b + ((t + j) mod 2 ^ k) * s) s
           = read_bytes (mem st) (b + ((t + j) mod 2 ^ k) * s) s" if "j < d" for j
  proof -
    have "(t + j) mod 2 ^ k \<noteq> (t + d) mod 2 ^ k"
      using that dlt by (rule mod_shift_neq)
    from slots_apart [OF this, of b s] show ?thesis
      by (simp add: st'_def sl read_memcpy_other)
  qed
  have new: "read_bytes (mem st') (b + ((t + d) mod 2 ^ k) * s) s = read_bytes (mem st) a s"
    by (simp add: st'_def sl read_memcpy_same)
  have c': "rb_contents st' rbd =
      map (\<lambda>j. read_bytes (mem st') (b + ((t + j) mod 2 ^ k) * s) s) [0..<d + 1]"
    using contents_eq [OF g'] d' by (simp add: st'_def b_def t_def s_def)
  have c: "rb_contents st rbd =
      map (\<lambda>j. read_bytes (mem st) (b + ((t + j) mod 2 ^ k) * s) s) [0..<d]"
    using contents_eq [OF g] by (simp add: r_def b_def t_def s_def d_def)
  have app: "rb_contents st' rbd = rb_contents st rbd @ [read_bytes (mem st) a s]"
    unfolding c' c using old new by simp
  have frame: "mem st' x = mem st x" if "x < b \<or> b + s * 2 ^ k \<le> x" for x
  proof -
    have "(t + d) mod 2 ^ k < (2::nat) ^ k" by simp
    from slot_inside [OF this, of b s] that show ?thesis
      by (auto simp: st'_def sl memcpy_def)
  qed
  show thesis
    by (rule that [OF res]) (use app frame in \<open>simp_all add: st'_def r_def s_def b_def\<close>)
qed

lemma put_full:
  fixes st :: "'w::len rb_state"
  assumes g: "rb_geometry k (rb st rbd)" and full: "length (rb_contents st rbd) = 2 ^ k"
  shows "ring_buffer_put M st rbd a = (- 1, st)"
proof -
  from g have klen: "k < LENGTH('w)" and n: "n_elem (rb st rbd) = 2 ^ k"
    by (simp_all add: rb_geometry_def)
  have "unat (head (rb st rbd) - tail (rb st rbd)) = unat (n_elem (rb st rbd))"
    using full unat_pow2 [OF klen] by (simp add: contents_length n)
  then have "head (rb st rbd) - tail (rb st rbd) = n_elem (rb st rbd)"
    by (simp add: word_unat_eq_iff)
  then show ?thesis by (intro put_failure) simp
qed

lemma get_empty:
  assumes "rb_contents st rbd = []"
  shows "ring_buffer_get M st rbd a = (- 1, st)"
proof -
  from assms have "unat (head (rb st rbd) - tail (rb st rbd)) = 0"
    by (simp add: contents_length [symmetric])
  then have "head (rb st rbd) - tail (rb st rbd) = 0"
    by (simp add: unat_eq_0)
  then show ?thesis by (intro get_failure) simp
qed

lemma get_step:
  fixes st :: "'w::len rb_state"
  assumes g: "rb_geometry k (rb st rbd)" and ok: "rbd < M"
    and ne: "rb_contents st rbd = x # xs"
    and out: "outside_buffer (rb st rbd) a"
  obtains st' where "ring_buffer_get M st rbd a = (0, st')"
    and "read_bytes (mem st') a (unat (s_elem (rb st rbd))) = x"
    and "rb_contents st' rbd = xs"
    and "s_elem (rb st' rbd) = s_elem (rb st rbd)"
    and "n_elem (rb st' rbd) = n_elem (rb st rbd)"
    and "buf (rb st' rbd) = buf (rb st rbd)"
proof -
  define r where "r = rb st rbd"
  define d where "d = unat (head r - tail r)"
  define s where "s = unat (s_elem r)"
  define t where "t = unat (tail r)"
  define b where "b = buf r"
  define st' where "st' = st\<lparr>rb := (rb st)(rbd := r\<lparr>tail := tail r + 1\<rparr>),
           mem := memcpy (mem st) a (slot r (tail r)) s\<rparr>"
  from g have klen: "k < LENGTH('w)" and n: "n_elem r = 2 ^ k"
    by (simp_all add: rb_geometry_def r_def)
  have un: "unat (n_elem r) = 2 ^ k"
    unfolding n using klen by (rule unat_pow2)
  from ne have dpos: "d = Suc (length xs)"
    using contents_length [of st rbd] by (simp add: d_def r_def)
  then have nz: "head r - tail r \<noteq> 0"
    by (auto simp: d_def)
  have res: "ring_buffer_get M st rbd a = (0, st')"
    using get_success [OF ok, of st a] nz by (simp add: r_def st'_def slot_def s_def)
  have g': "rb_geometry k (rb st' rbd)"
    using g by (simp add: st'_def rb_geometry_def r_def)
  have d': "unat (head (rb st' rbd) - tail (rb st' rbd)) = d - 1"
    using occupancy_get [OF nz] by (simp add: st'_def d_def)
  have out': "a + s \<le> b \<or> b + s * 2 ^ k \<le> a"
    using out un by (simp add: outside_buffer_def r_def s_def b_def)
  have c: "rb_contents st rbd =
      map (\<lambda>j. read_bytes (mem st) (b + ((t + j) mod 2 ^ k) * s) s) [0..<d]"
    using contents_eq [OF g] by (simp add: r_def b_def t_def s_def d_def)
  have sl: "slot r (tail r) = b + (t mod 2 ^ k) * s"
    using slot_eq [OF g, of "tail r"] by (simp add: r_def b_def t_def s_def)
  have keep: "read_bytes (mem st') (b + i * s) s = read_bytes (mem st) (b + i * s) s"
    if "i < 2 ^ k" for i
  proof -
    from slot_inside [OF that, of b s] out'
    have "b + i * s + s \<le> a \<or> a + s \<le> b + i * s" by linarith
    then show ?thesis by (simp add: st'_def read_memcpy_other)
  qed
  have t': "(unat (tail (rb st' rbd)) + j) mod 2 ^ k = (t + Suc j) mod 2 ^ k" for j
  proof -
    have "unat (tail r + 1) mod 2 ^ k = (t + 1) mod 2 ^ k"
      using unat_add_of_nat_mod [of k "tail r" 1] klen by (simp add: t_def)
    then have "(unat (tail r + 1) + j) mod 2 ^ k = (t + 1 + j) mod 2 ^ k"
      by (metis mod_add_left_eq)
    then show ?thesis by (simp add: st'_def)
  qed
  have c': "rb_contents st' rbd =
      map (\<lambda>j. read_bytes (mem st) (b + ((t + Suc j) mod 2 ^ k) * s) s) [0..<d - 1]"
  proof -
    have fields: "buf (rb st' rbd) = b" "unat (s_elem (rb st' rbd)) = s"
      by (simp_all add: st'_def b_def s_def)
    have "rb_contents st' rbd =
      map (\<lambda>j. read_bytes (mem st') (b + ((t + Suc j) mod 2 ^ k) * s) s) [0..<d - 1]"
      using contents_eq [OF g'] unfolding fields d' t' .
    also have "\<dots> = map (\<lambda>j. read_bytes (mem st) (b + ((t + Suc j) mod 2 ^ k) * s) s) [0..<d - 1]"
      by (intro map_cong refl keep) simp
    finally show ?thesis .
  qed
  have "x # xs = map (\<lambda>j. read_bytes (mem st) (b + ((t + j) mod 2 ^ k) * s) s) (0 # map Suc [0..<d - 1])"
    using c ne dpos by (simp add: upt_conv_Cons map_Suc_upt del: upt_Suc)
  then have x: "x = read_bytes (mem st) (b + (t mod 2 ^ k) * s) s"
    and xs: "xs = rb_contents st' rbd"
    by (simp_all add: c' comp_def)
  have "read_bytes (mem st') a s = x"
    by (simp add: st'_def sl read_memcpy_same x)
  with res xs show thesis
    by (intro that [of st']) (simp_all add: st'_def r_def s_def)
qed

lemma read_frame:
  assumes "\<And>x. x < b \<or> e \<le> x \<Longrightarrow> m' x = m x" and "a + n \<le> b \<or> e \<le> a"
  shows "read_bytes m' a n = read_bytes m a n"
  using assms by (auto simp: read_bytes_def)

lemma put_all_fills:
  fixes st :: "'w::len rb_state"
  assumes "rb_geometry k (rb st rbd)" and "rbd < M"
    and "length (rb_contents st rbd) + length as \<le> 2 ^ k"
    and "\<forall>a\<in>set as. outside_buffer (rb st rbd) a"
  shows "\<exists>st'. put_all M st rbd as = (replicate (length as) 0, st') \<and>
      rb_contents st' rbd =
        rb_contents st rbd @ map (\<lambda>a. read_bytes (mem st) a (unat (s_elem (rb st rbd)))) as \<and>
      s_elem (rb st' rbd) = s_elem (rb st rbd) \<and>
      n_elem (rb st' rbd) = n_elem (rb st rbd) \<and>
      buf (rb st' rbd) = buf (rb st rbd)"
  using assms
proof (induction as arbitrary: st)
  case Nil
  then show ?case by simp
next
  case (Cons a as)
  from Cons.prems have room: "length (rb_contents st rbd) < 2 ^ k" by simp
  from Cons.prems(1) have un: "unat (n_elem (rb st rbd)) = 2 ^ k"
    by (simp add: rb_geometry_def unat_pow2)
  from put_step [OF Cons.prems(1,2) room, of a] obtain st1 where
    p: "ring_buffer_put M st rbd a = (0, st1)"
    and c1: "rb_contents st1 rbd = rb_contents st rbd @ [read_bytes (mem st) a (unat (s_elem (rb st rbd)))]"
    and f: "s_elem (rb st1 rbd) = s_elem (rb st rbd)" "n_elem (rb st1 rbd) = n_elem (rb st rbd)"
      "buf (rb st1 rbd) = buf (rb st rbd)"
    and fr: "\<And>x. x < buf (rb st rbd) \<or> buf (rb st rbd) + unat (s_elem (rb st rbd)) * 2 ^ k \<le> x
            \<Longrightarrow> mem st1 x = mem st x"
    by blast
  have g1: "rb_geometry k (rb st1 rbd)"
    using Cons.prems(1) by (simp add: rb_geometry_def f)
  have len1: "length (rb_contents st1 rbd) + length as \<le> 2 ^ k"
    using Cons.prems(3) by (simp add: c1)
  have out1: "\<forall>a\<in>set as. outside_buffer (rb st1 rbd) a"
    using Cons.prems(4) by (simp add: outside_buffer_def f)
  from Cons.IH [OF g1 Cons.prems(2) len1 out1] obtain st' where
    r: "put_all M st1 rbd as = (replicate (length as) 0, st')"
    and c': "rb_contents st' rbd =
        rb_contents st1 rbd @ map (\<lambda>a. read_bytes (mem st1) a (unat (s_elem (rb st1 rbd)))) as"
    and f': "s_elem (rb st' rbd) = s_elem (rb st1 rbd)" "n_elem (rb st' rbd) = n_elem (rb st1 rbd)"
      "buf (rb st' rbd) = buf (rb st1 rbd)"
    by blast
  have same: "read_bytes (mem st1) x (unat (s_elem (rb st rbd)))
            = read_bytes (mem st) x (unat (s_elem (rb st rbd)))" if "x \<in> set as" for x
  proof (rule read_frame [OF fr])
    from Cons.prems(4) that have "outside_buffer (rb st rbd) x" by simp
    then show "x + unat (s_elem (rb st rbd)) \<le> buf (rb st rbd) \<or>
        buf (rb st rbd) + unat (s_elem (rb st rbd)) * 2 ^ k \<le> x"
      by (simp add: outside_buffer_def un)
  qed
  have "map (\<lambda>a. read_bytes (mem st1) a (unat (s_elem (rb st1 rbd)))) as
      = map (\<lambda>a. read_bytes (mem st) a (unat (s_elem (rb st rbd)))) as"
    unfolding f by (intro map_cong refl same)
  with c' c1 have "rb_contents st' rbd =
      rb_contents st rbd @ map (\<lambda>a. read_bytes (mem st) a (unat (s_elem (rb st rbd)))) (a # as)"
    by simp
  with p r f f' show ?case by simp
qed

lemma get_all_drains:
  fixes st :: "'w::len rb_state"
  assumes "rb_geometry k (rb st rbd)" and "rbd < M"
    and "rb_contents st rbd = xs @ ys" and "length as = length xs"
    and "\<forall>a\<in>set as. outside_buffer (rb st rbd) a"
  shows "\<exists>st'. get_all M st rbd as = (map (\<lambda>x. (0, x)) xs, st') \<and>
      rb_contents st' rbd = ys \<and>
      s_elem (rb st' rbd) = s_elem (rb st rbd) \<and>
      n_elem (rb st' rbd) = n_elem (rb st rbd) \<and>
      buf (rb st' rbd) = buf (rb st rbd)"
  using assms
proof (induction as arbitrary: st xs)
  case Nil
  then show ?case by simp
next
  case (Cons a as)
  from Cons.prems(4) obtain x xs' where xs: "xs = x # xs'" and len: "length as = length xs'"
    by (cases xs) simp_all
  from Cons.prems(3) have ne: "rb_contents st rbd = x # (xs' @ ys)"
    by (simp add: xs)
  from Cons.prems(5) have out: "outside_buffer (rb st rbd) a" by simp
  from get_step [OF Cons.prems(1,2) ne out] obtain st1 where
    p: "ring_buffer_get M st rbd a = (0, st1)"
    and rd: "read_bytes (mem st1) a (unat (s_elem (rb st rbd))) = x"
    and c1: "rb_contents st1 rbd = xs' @ ys"
    and f: "s_elem (rb st1 rbd) = s_elem (rb st rbd)" "n_elem (rb st1 rbd) = n_elem (rb st rbd)"
      "buf (rb st1 rbd) = buf (rb st rbd)"
    by blast
  have g1: "rb_geometry k (rb st1 rbd)"
    using Cons.prems(1) by (simp add: rb_geometry_def f)
  have out1: "\<forall>a\<in>set as. outside_buffer (rb st1 rbd) a"
    using Cons.prems(5) by (simp add: outside_buffer_def f)
  from Cons.IH [OF g1 Cons.prems(2) c1 len out1] obtain st' where
    r: "get_all M st1 rbd as = (map (\<lambda>x. (0, x)) xs', st')"
    and c': "rb_contents st' rbd = ys"
    and f': "s_elem (rb st' rbd) = s_elem (rb st1 rbd)" "n_elem (rb st' rbd) = n_elem (rb st1 rbd)"
      "buf (rb st' rbd) = buf (rb st1 rbd)"
    by blast
  from p r rd c' f f' show ?case by (simp add: xs)
qed

text \<open>
  Claim C1. A ring buffer of \<open>2 ^ k\<close> elements that is empty: \<open>2 ^ k\<close> calls of \<open>put\<close>
  all return 0, one more \<open>put\<close> returns -1 and changes nothing, \<open>2 ^ k\<close> calls of
  \<open>get\<close> then return 0 and deliver the elements in the order they were put, one more
  \<open>get\<close> returns -1, and a \<open>put\<close> after that returns 0. The elements put and the
  places the elements are fetched to lie outside the backing storage.
\<close>

theorem ring_buffer_fifo:
  fixes st :: "'w::len rb_state"
  assumes "rbd < M"
    and "rb_geometry k (rb st rbd)"
    and "head (rb st rbd) = tail (rb st rbd)"
    and "length srcs = 2 ^ k" and "length dsts = 2 ^ k"
    and "\<forall>a\<in>set srcs. outside_buffer (rb st rbd) a"
    and "\<forall>a\<in>set dsts. outside_buffer (rb st rbd) a"
  shows "let st1 = snd (put_all M st rbd srcs);
             st2 = snd (get_all M st1 rbd dsts)
         in fst (put_all M st rbd srcs) = replicate (2 ^ k) 0 \<and>
            ring_buffer_put M st1 rbd x = (- 1, st1) \<and>
            fst (get_all M st1 rbd dsts) =
              map (\<lambda>a. (0, read_bytes (mem st) a (unat (s_elem (rb st rbd))))) srcs \<and>
            ring_buffer_get M st2 rbd y = (- 1, st2) \<and>
            fst (ring_buffer_put M st2 rbd z) = 0"
proof -
  let ?s = "unat (s_elem (rb st rbd))"
  let ?pay = "map (\<lambda>a. read_bytes (mem st) a ?s) srcs"
  have empty: "rb_contents st rbd = []"
    using assms(3) by (simp add: rb_contents_def)
  then have room: "length (rb_contents st rbd) + length srcs \<le> 2 ^ k"
    using assms(4) by simp
  from put_all_fills [OF assms(2,1) room assms(6)] empty obtain st1 where
    p: "put_all M st rbd srcs = (replicate (length srcs) 0, st1)"
    and c1: "rb_contents st1 rbd = ?pay"
    and f: "s_elem (rb st1 rbd) = s_elem (rb st rbd)" "n_elem (rb st1 rbd) = n_elem (rb st rbd)"
      "buf (rb st1 rbd) = buf (rb st rbd)"
    by auto
  have g1: "rb_geometry k (rb st1 rbd)"
    using assms(2) by (simp add: rb_geometry_def f)
  have full: "length (rb_contents st1 rbd) = 2 ^ k"
    using assms(4) by (simp add: c1)
  have pf: "ring_buffer_put M st1 rbd x = (- 1, st1)"
    using g1 full by (rule put_full)
  have out1: "\<forall>a\<in>set dsts. outside_buffer (rb st1 rbd) a"
    using assms(7) by (simp add: outside_buffer_def f)
  have c1': "rb_contents st1 rbd = ?pay @ []" and len: "length dsts = length ?pay"
    using assms(4,5) by (simp_all add: c1)
  from get_all_drains [OF g1 assms(1) c1' len out1] obtain st2 where
    q: "get_all M st1 rbd dsts = (map (\<lambda>x. (0, x)) ?pay, st2)"
    and c2: "rb_contents st2 rbd = []"
    and f2: "s_elem (rb st2 rbd) = s_elem (rb st1 rbd)" "n_elem (rb st2 rbd) = n_elem (rb st1 rbd)"
      "buf (rb st2 rbd) = buf (rb st1 rbd)"
    by blast
  have g2: "rb_geometry k (rb st2 rbd)"
    using g1 by (simp add: rb_geometry_def f2)
  have ge: "ring_buffer_get M st2 rbd y = (- 1, st2)"
    using c2 by (rule get_empty)
  have "length (rb_contents st2 rbd) < 2 ^ k" by (simp add: c2)
  from put_step [OF g2 assms(1) this, of z] have pz: "fst (ring_buffer_put M st2 rbd z) = 0"
    by (metis fst_conv)
  from p q pf ge pz assms(4) show ?thesis
    by (simp add: Let_def comp_def)
qed

text \<open>
  The scenario of the specification: \<open>a\<close>, \<open>b\<close>, \<open>c\<close>, \<open>d\<close> are put, \<open>e\<close> is
  refused, four \<open>get\<close>s deliver \<open>a\<close>, \<open>b\<close>, \<open>c\<close>, \<open>d\<close>, a fifth fails, and \<open>f\<close>
  is accepted.
\<close>

theorem ring_buffer_fifo_witness:
  "rb_geometry 2 (rb scenario_start 0) \<and>
   head (rb scenario_start 0) = tail (rb scenario_start 0) \<and>
   read_bytes (mem scenario_start) 104 1 = [101] \<and>
   (let st1 = snd (put_all 1 scenario_start 0 [100, 101, 102, 103]);
        st2 = snd (get_all 1 st1 0 [300, 300, 300, 300])
    in fst (put_all 1 scenario_start 0 [100, 101, 102, 103]) = [0, 0, 0, 0] \<and>
       ring_buffer_put 1 st1 0 104 = (- 1, st1) \<and>
       fst (get_all 1 st1 0 [300, 300, 300, 300]) = [(0, [97]), (0, [98]), (0, [99]), (0, [100])] \<and>
       ring_buffer_get 1 st2 0 300 = (- 1, st2) \<and>
       fst (ring_buffer_put 1 st2 0 105) = 0)"
proof -
  have st: "rb scenario_start 0 = \<lparr>s_elem = 1, n_elem = 4, buf = 200, head = 0, tail = 0\<rparr>"
    and m: "mem scenario_start = scenario_mem"
    by (simp_all add: scenario_start_def ring_buffer_init_def rb_startup_def NULL_def)
  have g: "rb_geometry 2 (rb scenario_start 0)"
    by (simp add: st rb_geometry_def)
  have e: "head (rb scenario_start 0) = tail (rb scenario_start 0)"
    by (simp add: st)
  have o: "\<forall>a\<in>set [100, 101, 102, 103]. outside_buffer (rb scenario_start 0) a"
    "\<forall>a\<in>set [300, 300, 300, 300]. outside_buffer (rb scenario_start 0) a"
    by (simp_all add: st outside_buffer_def)
  have l: "length [100::nat, 101, 102, 103] = 2 ^ 2" "length [300::nat, 300, 300, 300] = 2 ^ 2"
    by simp_all
  have r: "read_bytes (mem scenario_start) 104 1 = [101]"
    "map (\<lambda>a. (0::int, read_bytes (mem scenario_start) a (unat (s_elem (rb scenario_start 0)))))
       [100, 101, 102, 103] = [(0, [97]), (0, [98]), (0, [99]), (0, [100])]"
    by (simp_all add: st m scenario_mem_def read_bytes_def)
  have rep: "replicate 4 (0::int) = [0, 0, 0, 0]"
    by (simp add: numeral_eq_Suc)
  from ring_buffer_fifo [OF _ g e l o, of 1 104 300 105] g e r show ?thesis
    by (simp add: Let_def rep del: put_all.simps get_all.simps)
qed

subsection \<open>One producer and one consumer\<close>
















text \<open>
  The steps are the statements of the two functions: a call of \<open>put\<close> that is not
  interleaved with anything is the test, the byte copies and the increment, and ends in
  the state that \<open>ring_buffer_put\<close> returns; likewise for \<open>get\<close>.
\<close>

lemma memcpy_none: "memcpy m dst src 0 = m"
  by (rule ext) (auto simp: memcpy_def)

lemma memcpy_next:
  assumes "src + n < dst \<or> dst + n \<le> src + n"
  shows "(memcpy m dst src n)(dst + n := memcpy m dst src n (src + n)) = memcpy m dst src (Suc n)"
  using assms by (auto simp: memcpy_def fun_eq_iff)

lemma put_is_steps:
  fixes c :: "'w::len spsc"
  assumes idle: "producer c = Idle" and ok: "rbd < M"
    and nf: "ring_buffer_full (rb (shared c) rbd) = 0"
    and own: "{data..<data + unat (s_elem (rb (shared c) rbd))} \<subseteq> P"
    and apart: "data + unat (s_elem (rb (shared c) rbd)) \<le> slot (rb (shared c) rbd) (head (rb (shared c) rbd)) \<or>
        slot (rb (shared c) rbd) (head (rb (shared c) rbd)) + unat (s_elem (rb (shared c) rbd)) \<le> data"
  shows "ring_buffer_put M (shared c) rbd data =
      (0, snd (ring_buffer_put M (shared c) rbd data))"
    and "rtranclp (spsc_step M rbd P C) c
      (c\<lparr>shared := snd (ring_buffer_put M (shared c) rbd data), producer := Idle,
         put_log := put_log c @ [read_bytes (mem (shared c)) data (unat (s_elem (rb (shared c) rbd)))]\<rparr>)"
proof -
  let ?st = "shared c"
  let ?r = "rb ?st rbd"
  let ?s = "unat (s_elem ?r)"
  let ?off = "unat ((head ?r AND (n_elem ?r - 1)) * s_elem ?r)"
  let ?dst = "buf ?r + ?off"
  let ?c = "\<lambda>n. c\<lparr>shared := ?st\<lparr>mem := memcpy (mem ?st) ?dst data n\<rparr>,
                   producer := Copying data ?off {..<n}\<rparr>"
  from nf have nfull: "head ?r - tail ?r \<noteq> n_elem ?r"
    by (simp add: ring_buffer_full_def split: if_splits)
  note res = put_success [OF ok nfull, of data]
  show "ring_buffer_put M ?st rbd data = (0, snd (ring_buffer_put M ?st rbd data))"
    by (simp add: res)
  from apart have ap: "data + ?s \<le> ?dst \<or> ?dst + ?s \<le> data"
    by (simp add: slot_def)
  have first: "spsc_step M rbd P C c (?c 0)"
    using spsc_step.put_test [of c rbd M ?r data P C] idle ok nf own
    by (simp add: memcpy_none)
  have copy: "rtranclp (spsc_step M rbd P C) c (?c n)" if "n \<le> ?s" for n
    using that
  proof (induction n)
    case 0
    from first show ?case by (rule r_into_rtranclp)
  next
    case (Suc n)
    then have run: "rtranclp (spsc_step M rbd P C) c (?c n)" and n: "n < ?s" by simp_all
    from ap n have "data + n < ?dst \<or> ?dst + n \<le> data + n" by linarith
    then have m: "(memcpy (mem ?st) ?dst data n)(?dst + n := memcpy (mem ?st) ?dst data n (data + n))
        = memcpy (mem ?st) ?dst data (Suc n)"
      by (rule memcpy_next)
    have "spsc_step M rbd P C (?c n) (?c (Suc n))"
      using spsc_step.put_copy [of "?c n" data ?off "{..<n}" ?r rbd n M P C] n m
      by (simp add: lessThan_Suc)
    with run show ?case by (rule rtranclp.rtrancl_into_rtrancl)
  qed
  have rd: "read_bytes (memcpy (mem ?st) ?dst data ?s) data ?s = read_bytes (mem ?st) data ?s"
    using ap by (intro read_memcpy_other) auto
  have last: "spsc_step M rbd P C (?c ?s)
      (c\<lparr>shared := snd (ring_buffer_put M ?st rbd data), producer := Idle,
         put_log := put_log c @ [read_bytes (mem ?st) data ?s]\<rparr>)"
  proof -
    have eq: "(?st\<lparr>mem := memcpy (mem ?st) ?dst data ?s\<rparr>)
          \<lparr>rb := (rb ?st)(rbd := ?r\<lparr>head := head ?r + 1\<rparr>)\<rparr> =
        snd (ring_buffer_put M ?st rbd data)"
      by (simp add: res)
    have "spsc_step M rbd P C (?c ?s)
      ((?c ?s)\<lparr>shared := (shared (?c ?s))\<lparr>rb := (rb (shared (?c ?s)))
             (rbd := ?r\<lparr>head := head ?r + 1\<rparr>)\<rparr>,
          producer := Idle,
          put_log := put_log (?c ?s) @ [read_bytes (mem (shared (?c ?s))) data ?s]\<rparr>)"
      by (rule spsc_step.put_done [of "?c ?s" data ?off "{..<?s}" ?r rbd M P C]) simp_all
    moreover have "(?c ?s)\<lparr>shared := (shared (?c ?s))\<lparr>rb := (rb (shared (?c ?s)))
             (rbd := ?r\<lparr>head := head ?r + 1\<rparr>)\<rparr>,
          producer := Idle,
          put_log := put_log (?c ?s) @ [read_bytes (mem (shared (?c ?s))) data ?s]\<rparr> =
        c\<lparr>shared := snd (ring_buffer_put M ?st rbd data), producer := Idle,
         put_log := put_log c @ [read_bytes (mem ?st) data ?s]\<rparr>"
      using rd by (simp add: res)
    ultimately show ?thesis by simp
  qed
  from copy [of ?s] last show "rtranclp (spsc_step M rbd P C) c
      (c\<lparr>shared := snd (ring_buffer_put M ?st rbd data), producer := Idle,
         put_log := put_log c @ [read_bytes (mem ?st) data ?s]\<rparr>)"
    by (simp add: rtranclp.rtrancl_into_rtrancl)
qed

lemma get_is_steps:
  fixes c :: "'w::len spsc"
  assumes idle: "consumer c = Idle" and ok: "rbd < M"
    and ne: "ring_buffer_empty (rb (shared c) rbd) = 0"
    and own: "{data..<data + unat (s_elem (rb (shared c) rbd))} \<subseteq> C"
    and apart: "data + unat (s_elem (rb (shared c) rbd)) \<le> slot (rb (shared c) rbd) (tail (rb (shared c) rbd)) \<or>
        slot (rb (shared c) rbd) (tail (rb (shared c) rbd)) + unat (s_elem (rb (shared c) rbd)) \<le> data"
  shows "ring_buffer_get M (shared c) rbd data =
      (0, snd (ring_buffer_get M (shared c) rbd data))"
    and "rtranclp (spsc_step M rbd P C) c
      (c\<lparr>shared := snd (ring_buffer_get M (shared c) rbd data), consumer := Idle,
         get_log := get_log c @
           [read_bytes (mem (shared c)) (slot (rb (shared c) rbd) (tail (rb (shared c) rbd)))
              (unat (s_elem (rb (shared c) rbd)))]\<rparr>)"
proof -
  let ?st = "shared c"
  let ?r = "rb ?st rbd"
  let ?s = "unat (s_elem ?r)"
  let ?off = "unat ((tail ?r AND (n_elem ?r - 1)) * s_elem ?r)"
  let ?src = "buf ?r + ?off"
  let ?c = "\<lambda>n. c\<lparr>shared := ?st\<lparr>mem := memcpy (mem ?st) data ?src n\<rparr>,
                   consumer := Copying data ?off {..<n}\<rparr>"
  from ne have nempty: "head ?r - tail ?r \<noteq> 0"
    by (simp add: ring_buffer_empty_def split: if_splits)
  note res = get_success [OF ok nempty, of data]
  show "ring_buffer_get M ?st rbd data = (0, snd (ring_buffer_get M ?st rbd data))"
    by (simp add: res)
  from apart have ap: "data + ?s \<le> ?src \<or> ?src + ?s \<le> data"
    by (simp add: slot_def)
  have first: "spsc_step M rbd P C c (?c 0)"
    using spsc_step.get_test [of c rbd M ?r data C P] idle ok ne own
    by (simp add: memcpy_none)
  have copy: "rtranclp (spsc_step M rbd P C) c (?c n)" if "n \<le> ?s" for n
    using that
  proof (induction n)
    case 0
    from first show ?case by (rule r_into_rtranclp)
  next
    case (Suc n)
    then have run: "rtranclp (spsc_step M rbd P C) c (?c n)" and n: "n < ?s" by simp_all
    from ap n have "?src + n < data \<or> data + n \<le> ?src + n" by linarith
    then have m: "(memcpy (mem ?st) data ?src n)(data + n := memcpy (mem ?st) data ?src n (?src + n))
        = memcpy (mem ?st) data ?src (Suc n)"
      by (rule memcpy_next)
    have "spsc_step M rbd P C (?c n) (?c (Suc n))"
      using spsc_step.get_copy [of "?c n" data ?off "{..<n}" ?r rbd n M P C] n m
      by (simp add: lessThan_Suc)
    with run show ?case by (rule rtranclp.rtrancl_into_rtrancl)
  qed
  have rd: "read_bytes (memcpy (mem ?st) data ?src ?s) data ?s = read_bytes (mem ?st) ?src ?s"
    by (rule read_memcpy_same)
  have last: "spsc_step M rbd P C (?c ?s)
      (c\<lparr>shared := snd (ring_buffer_get M ?st rbd data), consumer := Idle,
         get_log := get_log c @ [read_bytes (mem ?st) ?src ?s]\<rparr>)"
  proof -
    have "spsc_step M rbd P C (?c ?s)
      ((?c ?s)\<lparr>shared := (shared (?c ?s))\<lparr>rb := (rb (shared (?c ?s)))
             (rbd := ?r\<lparr>tail := tail ?r + 1\<rparr>)\<rparr>,
          consumer := Idle,
          get_log := get_log (?c ?s) @ [read_bytes (mem (shared (?c ?s))) data ?s]\<rparr>)"
      by (rule spsc_step.get_done [of "?c ?s" data ?off "{..<?s}" ?r rbd M P C]) simp_all
    moreover have "(?c ?s)\<lparr>shared := (shared (?c ?s))\<lparr>rb := (rb (shared (?c ?s)))
             (rbd := ?r\<lparr>tail := tail ?r + 1\<rparr>)\<rparr>,
          consumer := Idle,
          get_log := get_log (?c ?s) @ [read_bytes (mem (shared (?c ?s))) data ?s]\<rparr> =
        c\<lparr>shared := snd (ring_buffer_get M ?st rbd data), consumer := Idle,
         get_log := get_log c @ [read_bytes (mem ?st) ?src ?s]\<rparr>"
      using rd by (simp add: res)
    ultimately show ?thesis by simp
  qed
  from copy [of ?s] last show "rtranclp (spsc_step M rbd P C) c
      (c\<lparr>shared := snd (ring_buffer_get M ?st rbd data), consumer := Idle,
         get_log := get_log c @ [read_bytes (mem ?st) (slot ?r (tail ?r)) ?s]\<rparr>)"
    by (simp add: rtranclp.rtrancl_into_rtrancl slot_def)
qed



section \<open>Properties of the pool\<close>

subsection \<open>The bitmap\<close>

lemma NO_BYTES_eq:
  assumes "0 \<le> SIZE" and "SIZE \<le> INT_MAX"
  shows "NO_BYTES SIZE = (SIZE + 7) div 8"
  using assms by (simp add: NO_BYTES_def to_size_t_def INT_MAX_def BITS_IN_UINT8_def)

lemma index_split:
  assumes "0 \<le> i" and "i < SIZE" and "SIZE \<le> INT_MAX"
  shows "to_int (to_size_t i div BITS_IN_UINT8) = i div 8"
    and "to_int (to_size_t i mod BITS_IN_UINT8) = i mod 8"
    and "0 \<le> i div 8" and "i div 8 < NO_BYTES SIZE"
proof -
  from assms have i: "i < 2 ^ 31" by (simp add: INT_MAX_def)
  with assms(1) have s: "to_size_t i = i" by (simp add: to_size_t_def)
  have "0 \<le> i div 8" "i div 8 < 2 ^ 31" "0 \<le> i mod 8" "i mod 8 < 2 ^ 31"
    using assms(1) i by simp_all
  then show "to_int (to_size_t i div BITS_IN_UINT8) = i div 8"
    and "to_int (to_size_t i mod BITS_IN_UINT8) = i mod 8"
    by (simp_all add: s to_int_def BITS_IN_UINT8_def)
  show "0 \<le> i div 8" using assms(1) by simp
  have "NO_BYTES SIZE = (SIZE + 7) div 8"
    using assms by (intro NO_BYTES_eq) simp_all
  then show "i div 8 < NO_BYTES SIZE" using assms(2) by simp
qed

lemma bit_one_hot:
  fixes b b' :: nat
  assumes "b < 8" "b' < 8"
  shows "bit (push_bit b 1 :: u8) b' \<longleftrightarrow> b' = b"
  using assms by (auto simp: bit_exp_iff)

lemma test_mask: "(0 \<noteq> (x AND push_bit n 1)) = bit x n" for x :: u8
  using bit_iff_and_push_bit_not_eq_0 [of x n] by auto

lemma testBit_eq:
  assumes "0 \<le> i" and "i < SIZE" and "SIZE \<le> INT_MAX"
  shows "testBit SIZE p i = Some (free_at p i)"
proof -
  have "testBit SIZE p i = Some (0 \<noteq> (info p ! nat (i div 8) AND push_bit (nat (i mod 8)) 1))"
    using assms index_split [OF assms] by (simp add: testBit_def Let_def)
  then show ?thesis
    by (simp only: test_mask free_at_def)
qed

lemma testBit_above: "SIZE \<le> i \<Longrightarrow> testBit SIZE p i = Some False"
  by (simp add: testBit_def)

lemma setBit_eq:
  assumes "0 \<le> i" and "i < SIZE" and "SIZE \<le> INT_MAX"
  shows "setBit SIZE p i =
    Some (p\<lparr>info := (info p)[nat (i div 8) := info p ! nat (i div 8) OR push_bit (nat (i mod 8)) 1]\<rparr>)"
  using assms index_split [OF assms] by (simp add: setBit_def Let_def)

lemma clrBit_eq:
  assumes "0 \<le> i" and "i < SIZE" and "SIZE \<le> INT_MAX"
  shows "clrBit SIZE p i =
    Some (p\<lparr>info := (info p)[nat (i div 8) := info p ! nat (i div 8) AND NOT (push_bit (nat (i mod 8)) 1)]\<rparr>)"
  using assms index_split [OF assms] by (simp add: clrBit_def Let_def)

lemma same_bit_iff:
  fixes i j :: int
  shows "i div 8 = j div 8 \<and> i mod 8 = j mod 8 \<longleftrightarrow> i = j"
  by (metis mult_div_mod_eq)

lemma byte_in_info:
  assumes "0 \<le> i" and "i < SIZE" and "SIZE \<le> INT_MAX" and "pool_wf SIZE p"
  shows "nat (i div 8) < length (info p)"
  using index_split(3,4) [OF assms(1-3)] assms(4) by (simp add: pool_wf_def)

lemma free_at_set:
  assumes "0 \<le> i" "0 \<le> j" and "nat (j div 8) < length (info p)"
  shows "free_at (p\<lparr>info := (info p)[nat (j div 8) := info p ! nat (j div 8) OR push_bit (nat (j mod 8)) 1]\<rparr>) i
     \<longleftrightarrow> i = j \<or> free_at p i"
proof (cases "i div 8 = j div 8")
  case True
  have m: "nat (i mod 8) < 8" by simp
  have "nat (i mod 8) = nat (j mod 8) \<longleftrightarrow> i mod 8 = j mod 8"
    by (simp add: nat_eq_iff)
  have m': "nat (j mod 8) < 8" by simp
  from True same_bit_iff [of i j] assms(3) bit_one_hot [OF m' m] show ?thesis
    by (auto simp: free_at_def bit_or_iff nat_eq_iff simp del: push_bit_of_1)
next
  case False
  with assms(1,2) have "nat (i div 8) \<noteq> nat (j div 8)"
    by (simp add: nat_eq_iff pos_imp_zdiv_nonneg_iff)
  with False show ?thesis
    by (auto simp: free_at_def)
qed

lemma free_at_clr:
  assumes "0 \<le> i" "0 \<le> j" and "nat (j div 8) < length (info p)"
  shows "free_at (p\<lparr>info := (info p)[nat (j div 8) := info p ! nat (j div 8) AND NOT (push_bit (nat (j mod 8)) 1)]\<rparr>) i
     \<longleftrightarrow> i \<noteq> j \<and> free_at p i"
proof (cases "i div 8 = j div 8")
  case True
  have m: "nat (i mod 8) < 8" by simp
  have "nat (i mod 8) = nat (j mod 8) \<longleftrightarrow> i mod 8 = j mod 8"
    by (simp add: nat_eq_iff)
  have m': "nat (j mod 8) < 8" by simp
  from True same_bit_iff [of i j] assms(3) bit_one_hot [OF m' m] m show ?thesis
    by (auto simp: free_at_def bit_and_iff bit_not_iff nat_eq_iff simp del: push_bit_of_1)
next
  case False
  with assms(1,2) have "nat (i div 8) \<noteq> nat (j div 8)"
    by (simp add: nat_eq_iff pos_imp_zdiv_nonneg_iff)
  with False show ?thesis
    by (auto simp: free_at_def)
qed

lemma free_at_Pool:
  assumes "0 \<le> i" and "i < SIZE" and "SIZE \<le> INT_MAX"
  shows "free_at (Pool SIZE) i"
proof -
  from index_split(3,4) [OF assms] have "nat (i div 8) < nat (NO_BYTES SIZE)" by simp
  moreover have "bit (0xFF :: u8) (nat (i mod 8))"
  proof -
    have "(0xFF :: u8) = - 1" by simp
    moreover have "nat (i mod 8) < 8" by simp
    ultimately show ?thesis by (simp only: bit_minus_1_iff) simp
  qed
  ultimately show ?thesis by (simp add: free_at_def Pool_def)
qed

lemma pool_wf_Pool: "pool_wf SIZE (Pool SIZE)"
  by (simp add: pool_wf_def Pool_def)

lemma setBit_effect:
  assumes "0 \<le> j" and "j < SIZE" and "SIZE \<le> INT_MAX" and "pool_wf SIZE p"
  obtains p' where "setBit SIZE p j = Some p'" and "pool_wf SIZE p'"
    and "free_elements_cnt p' = free_elements_cnt p"
    and "\<And>i. 0 \<le> i \<Longrightarrow> free_at p' i \<longleftrightarrow> i = j \<or> free_at p i"
proof -
  let ?p = "p\<lparr>info := (info p)[nat (j div 8) := info p ! nat (j div 8) OR push_bit (nat (j mod 8)) 1]\<rparr>"
  have "setBit SIZE p j = Some ?p"
    using assms(1-3) by (rule setBit_eq)
  moreover have "pool_wf SIZE ?p"
    using assms(4) by (simp add: pool_wf_def)
  moreover have "free_elements_cnt ?p = free_elements_cnt p" by simp
  moreover have "free_at ?p i \<longleftrightarrow> i = j \<or> free_at p i" if "0 \<le> i" for i
    using that assms(1) byte_in_info [OF assms] by (rule free_at_set)
  ultimately show thesis by (rule that)
qed

lemma clrBit_effect:
  assumes "0 \<le> j" and "j < SIZE" and "SIZE \<le> INT_MAX" and "pool_wf SIZE p"
  obtains p' where "clrBit SIZE p j = Some p'" and "pool_wf SIZE p'"
    and "free_elements_cnt p' = free_elements_cnt p"
    and "\<And>i. 0 \<le> i \<Longrightarrow> free_at p' i \<longleftrightarrow> i \<noteq> j \<and> free_at p i"
proof -
  let ?p = "p\<lparr>info := (info p)[nat (j div 8) := info p ! nat (j div 8) AND NOT (push_bit (nat (j mod 8)) 1)]\<rparr>"
  have "clrBit SIZE p j = Some ?p"
    using assms(1-3) by (rule clrBit_eq)
  moreover have "pool_wf SIZE ?p"
    using assms(4) by (simp add: pool_wf_def)
  moreover have "free_elements_cnt ?p = free_elements_cnt p" by simp
  moreover have "free_at ?p i \<longleftrightarrow> i \<noteq> j \<and> free_at p i" if "0 \<le> i" for i
    using that assms(1) byte_in_info [OF assms] by (rule free_at_clr)
  ultimately show thesis by (rule that)
qed

text \<open>
  Claim C8, amended. For every index \<open>i \<ge> SIZE\<close>, \<open>testBit\<close> returns false and
  \<open>setBit\<close> and \<open>clrBit\<close> return the pool as it is, with no access to \<open>info\<close>.
\<close>

theorem upper_index_ignored:
  assumes "SIZE \<le> i"
  shows "testBit SIZE p i = Some False \<and> setBit SIZE p i = Some p \<and> clrBit SIZE p i = Some p"
  using assms by (simp add: testBit_def setBit_def clrBit_def)

text \<open>Index 8 of a pool of eight slots is ignored; index 7 is a bit of the bitmap.\<close>

theorem upper_index_ignored_witness:
  "testBit 8 (Pool 8) 8 = Some False \<and> setBit 8 (Pool 8) 8 = Some (Pool 8) \<and>
   clrBit 8 (Pool 8) 8 = Some (Pool 8) \<and> testBit 8 (Pool 8) 7 = Some True"
proof -
  have "testBit 8 (Pool 8) 7 = Some True" by code_simp
  with upper_index_ignored [of 8 8 "Pool 8"] show ?thesis by simp
qed

lemma index_below:
  assumes "0 \<le> SIZE" and "SIZE \<le> INT_MAX" and "- (2 ^ 31) \<le> i" and "i < 0"
  shows "testBit SIZE p i = None" and "setBit SIZE p i = None" and "clrBit SIZE p i = None"
proof -
  have "i mod 2 ^ 32 = (i + 2 ^ 32) mod 2 ^ 32" by simp
  also have "\<dots> = i + 2 ^ 32"
    using assms(3,4) by (intro mod_pos_pos_trivial) simp_all
  finally have s: "to_size_t i = i + 2 ^ 32"
    by (simp add: to_size_t_def)
  have "2 ^ 28 \<le> (i + 2 ^ 32) div 8" "(i + 2 ^ 32) div 8 < 2 ^ 31"
    using assms(3,4) by simp_all
  then have o: "to_int (to_size_t i div BITS_IN_UINT8) = (i + 2 ^ 32) div 8"
    by (simp add: s to_int_def BITS_IN_UINT8_def)
  have "NO_BYTES SIZE \<le> 2 ^ 28"
    using assms(1,2) by (simp add: NO_BYTES_eq INT_MAX_def)
  with o \<open>2 ^ 28 \<le> (i + 2 ^ 32) div 8\<close>
  have "\<not> to_int (to_size_t i div BITS_IN_UINT8) < NO_BYTES SIZE" by simp
  with assms(1,4) show "testBit SIZE p i = None" and "setBit SIZE p i = None"
    and "clrBit SIZE p i = None"
    by (simp_all add: testBit_def setBit_def clrBit_def Let_def)
qed

text \<open>
  Claim C8 as stated also covers indices below 0. The three functions only test
  \<open>bit_index >= SIZE\<close>: with index -1 and eight slots, the byte offset computed
  through \<open>size_t\<close> is 536870911, outside the one byte of \<open>info\<close>. The functions are
  private, and \<open>palloc\<close> and \<open>free\<close> call them with indices from 0 to \<open>SIZE - 1\<close>
  only.
\<close>

theorem negative_index_access:
  "testBit 8 (Pool 8) (- 1) = None \<and> setBit 8 (Pool 8) (- 1) = None \<and>
   clrBit 8 (Pool 8) (- 1) = None"
  by code_simp

subsection \<open>Allocation and release\<close>

lemma palloc_loop_none:
  assumes "SIZE \<le> INT_MAX" and "0 \<le> i0"
    and "\<And>i. i0 \<le> i \<Longrightarrow> i < SIZE \<Longrightarrow> \<not> free_at p i"
  shows "palloc_loop SIZE E T p i0 = Some (NULL, p)"
  using assms
proof (induction SIZE E T p i0 rule: palloc_loop.induct)
  case (1 SIZE E T p i)
  show ?case
  proof (cases "i < SIZE")
    case True
    with "1.prems" have t: "testBit SIZE p i = Some False"
      by (simp add: testBit_eq)
    have "palloc_loop SIZE E T p (i + 1) = Some (NULL, p)"
      using "1.IH" [OF True t] "1.prems" by simp
    with True t show ?thesis
      by (subst palloc_loop.simps) simp
  next
    case False
    then show ?thesis by (subst palloc_loop.simps) simp
  qed
qed

lemma palloc_loop_scan:
  assumes "SIZE \<le> INT_MAX" and "0 \<le> i0" and "i0 \<le> j" and "j < SIZE"
    and "free_at p j" and "\<And>i. i0 \<le> i \<Longrightarrow> i < j \<Longrightarrow> \<not> free_at p i"
    and "clrBit SIZE p j = Some p'"
  shows "palloc_loop SIZE E T p i0 =
    Some (elem_addr E T j, p'\<lparr>free_elements_cnt := free_elements_cnt p' - 1\<rparr>)"
  using assms
proof (induction SIZE E T p i0 rule: palloc_loop.induct)
  case (1 SIZE E T p i)
  from "1.prems" have lt: "i < SIZE" by simp
  show ?case
  proof (cases "i = j")
    case True
    with "1.prems" have "testBit SIZE p i = Some True"
      by (simp add: testBit_eq)
    with lt True "1.prems"(7) show ?thesis
      by (subst palloc_loop.simps) simp
  next
    case False
    with "1.prems" have ij: "i < j" by simp
    with "1.prems" have t: "testBit SIZE p i = Some False"
      by (simp add: testBit_eq)
    have "palloc_loop SIZE E T p (i + 1) =
        Some (elem_addr E T j, p'\<lparr>free_elements_cnt := free_elements_cnt p' - 1\<rparr>)"
      using "1.IH" [OF lt t] ij "1.prems" by simp
    with lt t show ?thesis
      by (subst palloc_loop.simps) simp
  qed
qed

lemma free_loop_nomatch:
  assumes "\<And>i. i0 \<le> i \<Longrightarrow> i < SIZE \<Longrightarrow> ptr \<noteq> elem_addr E T i"
  shows "free_loop SIZE E T p ptr i0 = Some p"
  using assms
proof (induction SIZE E T p ptr i0 rule: free_loop.induct)
  case (1 SIZE E T p ptr i)
  show ?case
  proof (cases "i < SIZE")
    case True
    with "1.prems" have ne: "ptr \<noteq> elem_addr E T i" by simp
    have "free_loop SIZE E T p ptr (i + 1) = Some p"
      using True ne "1.prems" by (intro "1.IH"(2)) simp_all
    with True ne show ?thesis
      by (subst free_loop.simps) simp
  next
    case False
    then show ?thesis by (subst free_loop.simps) simp
  qed
qed

lemma elem_addr_inj:
  assumes "0 < T" and "0 \<le> i" and "0 \<le> j"
  shows "elem_addr E T i = elem_addr E T j \<longleftrightarrow> i = j"
  using assms by (auto simp: elem_addr_def)

lemma elem_addr_not_NULL: "E \<noteq> NULL \<Longrightarrow> elem_addr E T i \<noteq> NULL"
  by (simp add: elem_addr_def NULL_def)

lemma free_loop_match:
  assumes "E \<noteq> NULL" and "0 < T" and "0 \<le> i0" and "i0 \<le> j" and "j < SIZE"
    and "setBit SIZE p j = Some p'"
  shows "free_loop SIZE E T p (elem_addr E T j) i0 =
    Some (p'\<lparr>free_elements_cnt := free_elements_cnt p' + 1\<rparr>)"
proof -
  have after: "free_loop SIZE E T q NULL i = Some q" for q i
  proof (rule free_loop_nomatch)
    fix k show "NULL \<noteq> elem_addr E T k"
      using elem_addr_not_NULL [OF assms(1), of T k] by simp
  qed
  have "i0 \<le> j \<Longrightarrow> free_loop SIZE E T p (elem_addr E T j) i0 =
      Some (p'\<lparr>free_elements_cnt := free_elements_cnt p' + 1\<rparr>)"
    using assms(3)
  proof (induction "nat (j - i0)" arbitrary: i0)
    case 0
    then have "i0 = j" by simp
    with assms(5,6) after show ?case
      by (subst free_loop.simps) simp
  next
    case (Suc n)
    then have ij: "i0 < j" and n: "n = nat (j - (i0 + 1))" by simp_all
    with Suc.prems assms(2,3) have ne: "elem_addr E T j \<noteq> elem_addr E T i0"
      by (simp add: elem_addr_inj)
    have "free_loop SIZE E T p (elem_addr E T j) (i0 + 1) =
        Some (p'\<lparr>free_elements_cnt := free_elements_cnt p' + 1\<rparr>)"
      using ij Suc.prems by (intro Suc.hyps(1) [OF n]) simp_all
    with ij assms(5) ne show ?case
      by (subst free_loop.simps) simp
  qed
  with assms(4) show ?thesis by simp
qed

lemma finite_free_set: "finite (free_set SIZE p)"
proof -
  have "free_set SIZE p \<subseteq> {0..<SIZE}" by (auto simp: free_set_def)
  then show ?thesis by (rule finite_subset) simp
qed

lemma count_free_card:
  assumes "SIZE \<le> INT_MAX"
  shows "count_free SIZE p = int (card (free_set SIZE p))"
proof -
  have "{i. testBit SIZE p i = Some True} \<inter> set [0..SIZE - 1] = free_set SIZE p"
    using assms by (auto simp: free_set_def testBit_eq)
  then show ?thesis
    by (simp add: count_free_def distinct_length_filter)
qed

lemma palloc_found:
  assumes "SIZE \<le> INT_MAX" and "pool_wf SIZE p" and "0 < free_elements_cnt p"
    and "0 \<le> j" and "j < SIZE" and "free_at p j"
    and "\<And>i. 0 \<le> i \<Longrightarrow> i < j \<Longrightarrow> \<not> free_at p i"
  obtains p' where "palloc SIZE E T p = Some (elem_addr E T j, p')" and "pool_wf SIZE p'"
    and "free_elements_cnt p' = free_elements_cnt p - 1"
    and "\<And>i. 0 \<le> i \<Longrightarrow> free_at p' i \<longleftrightarrow> i \<noteq> j \<and> free_at p i"
proof -
  from clrBit_effect [OF assms(4,5,1,2)] obtain q where
    q: "clrBit SIZE p j = Some q" "pool_wf SIZE q" "free_elements_cnt q = free_elements_cnt p"
    "\<And>i. 0 \<le> i \<Longrightarrow> free_at q i \<longleftrightarrow> i \<noteq> j \<and> free_at p i"
    by blast
  let ?p = "q\<lparr>free_elements_cnt := free_elements_cnt q - 1\<rparr>"
  have "palloc_loop SIZE E T p 0 = Some (elem_addr E T j, ?p)"
    using assms(1) _ assms(4,5,6) _ q(1) by (rule palloc_loop_scan) (simp_all add: assms(7))
  with assms(3) have "palloc SIZE E T p = Some (elem_addr E T j, ?p)"
    by (simp add: palloc_def)
  moreover have "pool_wf SIZE ?p" using q(2) by (simp add: pool_wf_def)
  moreover have "free_elements_cnt ?p = free_elements_cnt p - 1" using q(3) by simp
  moreover have "free_at ?p i \<longleftrightarrow> i \<noteq> j \<and> free_at p i" if "0 \<le> i" for i
    using q(4) [OF that] by (simp add: free_at_def)
  ultimately show thesis by (rule that)
qed

lemma palloc_nothing:
  assumes "SIZE \<le> INT_MAX"
    and "free_elements_cnt p \<le> 0 \<or> (\<forall>i. 0 \<le> i \<and> i < SIZE \<longrightarrow> \<not> free_at p i)"
  shows "palloc SIZE E T p = Some (NULL, p)"
proof (cases "free_elements_cnt p \<le> 0")
  case True
  then show ?thesis by (simp add: palloc_def)
next
  case False
  with assms(2) have "\<And>i. 0 \<le> i \<Longrightarrow> i < SIZE \<Longrightarrow> \<not> free_at p i" by blast
  with assms(1) have "palloc_loop SIZE E T p 0 = Some (NULL, p)"
    by (intro palloc_loop_none) simp_all
  with False show ?thesis by (simp add: palloc_def)
qed

lemma free_slot:
  assumes "SIZE \<le> INT_MAX" and "pool_wf SIZE p" and "E \<noteq> NULL" and "0 < T"
    and "0 \<le> j" and "j < SIZE"
  obtains p' where "free SIZE E T p (elem_addr E T j) = Some p'" and "pool_wf SIZE p'"
    and "free_elements_cnt p' = free_elements_cnt p + 1"
    and "\<And>i. 0 \<le> i \<Longrightarrow> free_at p' i \<longleftrightarrow> i = j \<or> free_at p i"
proof -
  from setBit_effect [OF assms(5,6,1,2)] obtain q where
    q: "setBit SIZE p j = Some q" "pool_wf SIZE q" "free_elements_cnt q = free_elements_cnt p"
    "\<And>i. 0 \<le> i \<Longrightarrow> free_at q i \<longleftrightarrow> i = j \<or> free_at p i"
    by blast
  let ?p = "q\<lparr>free_elements_cnt := free_elements_cnt q + 1\<rparr>"
  have "free_loop SIZE E T p (elem_addr E T j) 0 = Some ?p"
    using assms(3,4) _ assms(5,6) q(1) by (rule free_loop_match) simp
  with elem_addr_not_NULL [OF assms(3), of T j]
  have "free SIZE E T p (elem_addr E T j) = Some ?p"
    by (simp add: free_def)
  moreover have "pool_wf SIZE ?p" using q(2) by (simp add: pool_wf_def)
  moreover have "free_elements_cnt ?p = free_elements_cnt p + 1" using q(3) by simp
  moreover have "free_at ?p i \<longleftrightarrow> i = j \<or> free_at p i" if "0 \<le> i" for i
    using q(4) [OF that] by (simp add: free_at_def)
  ultimately show thesis by (rule that)
qed

lemma free_foreign:
  assumes "ptr = NULL \<or> (\<forall>i. 0 \<le> i \<and> i < SIZE \<longrightarrow> ptr \<noteq> elem_addr E T i)"
  shows "free SIZE E T p ptr = Some p"
proof (cases "ptr = NULL")
  case True
  then show ?thesis by (simp add: free_def)
next
  case False
  with assms have "\<And>i. 0 \<le> i \<Longrightarrow> i < SIZE \<Longrightarrow> ptr \<noteq> elem_addr E T i" by blast
  then have "free_loop SIZE E T p ptr 0 = Some p"
    by (intro free_loop_nomatch) simp_all
  with False show ?thesis by (simp add: free_def)
qed

lemma palloc_cases:
  assumes "SIZE \<le> INT_MAX" and "pool_wf SIZE p"
  obtains (none) "palloc SIZE E T p = Some (NULL, p)"
    and "free_elements_cnt p \<le> 0 \<or> free_set SIZE p = {}"
  | (found) j p' where "0 \<le> j" and "j < SIZE" and "free_at p j"
    and "\<And>i. 0 \<le> i \<Longrightarrow> i < j \<Longrightarrow> \<not> free_at p i"
    and "0 < free_elements_cnt p"
    and "palloc SIZE E T p = Some (elem_addr E T j, p')" and "pool_wf SIZE p'"
    and "free_elements_cnt p' = free_elements_cnt p - 1"
    and "\<And>i. 0 \<le> i \<Longrightarrow> free_at p' i \<longleftrightarrow> i \<noteq> j \<and> free_at p i"
proof (cases "free_elements_cnt p \<le> 0 \<or> free_set SIZE p = {}")
  case True
  then have "free_elements_cnt p \<le> 0 \<or> (\<forall>i. 0 \<le> i \<and> i < SIZE \<longrightarrow> \<not> free_at p i)"
    by (auto simp: free_set_def)
  with assms(1) have "palloc SIZE E T p = Some (NULL, p)" by (rule palloc_nothing)
  then show thesis using True by (rule none)
next
  case False
  then have pos: "0 < free_elements_cnt p" and ne: "free_set SIZE p \<noteq> {}" by simp_all
  define j where "j = Min (free_set SIZE p)"
  have "j \<in> free_set SIZE p"
    unfolding j_def using finite_free_set ne by (rule Min_in)
  then have j: "0 \<le> j" "j < SIZE" "free_at p j" by (simp_all add: free_set_def)
  have least: "\<not> free_at p i" if "0 \<le> i" "i < j" for i
  proof
    assume "free_at p i"
    with that j(2) have "i \<in> free_set SIZE p" by (simp add: free_set_def)
    then have "j \<le> i" unfolding j_def using finite_free_set by (intro Min_le)
    with that(2) show False by simp
  qed
  from palloc_found [OF assms pos j least, of E T] obtain p' where
    "palloc SIZE E T p = Some (elem_addr E T j, p')" "pool_wf SIZE p'"
    "free_elements_cnt p' = free_elements_cnt p - 1"
    "\<And>i. 0 \<le> i \<Longrightarrow> free_at p' i \<longleftrightarrow> i \<noteq> j \<and> free_at p i"
    by blast
  with j least pos show thesis by (intro found [of j p']) blast+
qed

lemma free_cases:
  assumes "SIZE \<le> INT_MAX" and "pool_wf SIZE p" and "E \<noteq> NULL" and "0 < T"
  obtains (ignored) "free SIZE E T p ptr = Some p"
    and "ptr = NULL \<or> (\<forall>i. 0 \<le> i \<and> i < SIZE \<longrightarrow> ptr \<noteq> elem_addr E T i)"
  | (slot) j p' where "0 \<le> j" and "j < SIZE" and "ptr = elem_addr E T j"
    and "free SIZE E T p ptr = Some p'" and "pool_wf SIZE p'"
    and "free_elements_cnt p' = free_elements_cnt p + 1"
    and "\<And>i. 0 \<le> i \<Longrightarrow> free_at p' i \<longleftrightarrow> i = j \<or> free_at p i"
proof (cases "ptr = NULL \<or> (\<forall>i. 0 \<le> i \<and> i < SIZE \<longrightarrow> ptr \<noteq> elem_addr E T i)")
  case True
  then have "free SIZE E T p ptr = Some p" by (rule free_foreign)
  then show thesis using True by (rule ignored)
next
  case False
  then obtain j where j: "0 \<le> j" "j < SIZE" "ptr = elem_addr E T j" by blast
  from free_slot [OF assms j(1,2)] obtain p' where
    "free SIZE E T p (elem_addr E T j) = Some p'" "pool_wf SIZE p'"
    "free_elements_cnt p' = free_elements_cnt p + 1"
    "\<And>i. 0 \<le> i \<Longrightarrow> free_at p' i \<longleftrightarrow> i = j \<or> free_at p i"
    by blast
  with j show thesis by (intro slot [of j p']) simp_all
qed

lemma free_set_Pool:
  assumes "SIZE \<le> INT_MAX"
  shows "free_set SIZE (Pool SIZE) = {0..<SIZE}"
  using assms by (auto simp: free_set_def free_at_Pool)

lemma reachable_counts:
  assumes "0 \<le> SIZE" and "SIZE \<le> INT_MAX" and "E \<noteq> NULL" and "0 < T"
    and "pool_reachable SIZE E T p"
  shows "pool_wf SIZE p \<and> int (card (free_set SIZE p)) \<le> free_elements_cnt p"
  using assms(5)
proof (induction rule: pool_reachable.induct)
  case construct
  have "int (card (free_set SIZE (Pool SIZE))) = SIZE"
    using assms(1) by (simp add: free_set_Pool [OF assms(2)])
  then show ?case by (simp add: pool_wf_Pool) (simp add: Pool_def)
next
  case (alloc p a p')
  then have wf: "pool_wf SIZE p" and le: "int (card (free_set SIZE p)) \<le> free_elements_cnt p"
    by simp_all
  from assms(2) wf show ?case
  proof (cases rule: palloc_cases [where E = E and T = T])
    case none
    with alloc.hyps(2) wf le show ?thesis by simp
  next
    case (found j q)
    with alloc.hyps(2) have p': "p' = q" by simp
    have "free_set SIZE q = free_set SIZE p - {j}"
      using found(9) by (auto simp: free_set_def)
    moreover have "j \<in> free_set SIZE p"
      using found(1-3) by (simp add: free_set_def)
    ultimately have "card (free_set SIZE q) = card (free_set SIZE p) - 1"
      and "0 < card (free_set SIZE p)"
      using finite_free_set [of SIZE p] by (auto simp: card_gt_0_iff)
    with le found(7,8) show ?thesis by (simp add: p')
  qed
next
  case (dealloc p ptr p')
  then have wf: "pool_wf SIZE p" and le: "int (card (free_set SIZE p)) \<le> free_elements_cnt p"
    by simp_all
  from assms(2) wf assms(3,4) show ?case
  proof (cases rule: free_cases [where ptr = ptr])
    case ignored
    with dealloc.hyps(2) wf le show ?thesis by simp
  next
    case (slot j q)
    with dealloc.hyps(2) have p': "p' = q" by simp
    have "free_set SIZE q = insert j (free_set SIZE p)"
      using slot(1,2,7) by (auto simp: free_set_def)
    then have "card (free_set SIZE q) \<le> card (free_set SIZE p) + 1"
      using finite_free_set [of SIZE p] by (simp add: card_insert_if)
    with le slot(5,6) show ?thesis by (simp add: p')
  qed
qed

text \<open>No call of \<open>palloc\<close> or \<open>free\<close> reaches an index outside the bitmap.\<close>

lemma no_fault:
  assumes "0 \<le> SIZE" and "SIZE \<le> INT_MAX" and "E \<noteq> NULL" and "0 < T"
    and "pool_reachable SIZE E T p"
  shows "palloc SIZE E T p \<noteq> None" and "free SIZE E T p ptr \<noteq> None"
proof -
  from reachable_counts [OF assms] have wf: "pool_wf SIZE p" by simp
  from assms(2) wf show "palloc SIZE E T p \<noteq> None"
    by (cases rule: palloc_cases [where E = E and T = T]) simp_all
  from assms(2) wf assms(3,4) show "free SIZE E T p ptr \<noteq> None"
    by (cases rule: free_cases [where ptr = ptr]) simp_all
qed

lemma proper_use_counts:
  assumes "0 \<le> SIZE" and "SIZE \<le> INT_MAX" and "E \<noteq> NULL" and "0 < T"
    and "pool_proper SIZE E T p"
  shows "pool_wf SIZE p \<and> free_elements_cnt p = count_free SIZE p \<and>
    0 \<le> free_elements_cnt p \<and> free_elements_cnt p \<le> SIZE"
proof -
  have bound: "int (card (free_set SIZE q)) \<le> SIZE" for q
  proof -
    have "free_set SIZE q \<subseteq> {0..<SIZE}" by (auto simp: free_set_def)
    then have "card (free_set SIZE q) \<le> card {0..<SIZE}" by (intro card_mono) simp_all
    with assms(1) show ?thesis by simp
  qed
  have "pool_wf SIZE p \<and> free_elements_cnt p = int (card (free_set SIZE p))"
    using assms(5)
  proof (induction rule: pool_proper.induct)
    case construct
    have "int (card (free_set SIZE (Pool SIZE))) = SIZE"
      using assms(1) by (simp add: free_set_Pool [OF assms(2)])
    then show ?case by (simp add: pool_wf_Pool) (simp add: Pool_def)
  next
    case (alloc p a p')
    then have wf: "pool_wf SIZE p" and eq: "free_elements_cnt p = int (card (free_set SIZE p))"
      by simp_all
    from assms(2) wf show ?case
    proof (cases rule: palloc_cases [where E = E and T = T])
      case none
      with alloc.hyps(2) wf eq show ?thesis by simp
    next
      case (found j q)
      with alloc.hyps(2) have p': "p' = q" by simp
      have "free_set SIZE q = free_set SIZE p - {j}"
        using found(9) by (auto simp: free_set_def)
      moreover have "j \<in> free_set SIZE p"
        using found(1-3) by (simp add: free_set_def)
      ultimately have "card (free_set SIZE q) = card (free_set SIZE p) - 1"
        and "0 < card (free_set SIZE p)"
        using finite_free_set [of SIZE p] by (auto simp: card_gt_0_iff)
      with eq found(7,8) show ?thesis by (simp add: p')
    qed
  next
    case (dealloc p j p')
    then have wf: "pool_wf SIZE p" and eq: "free_elements_cnt p = int (card (free_set SIZE p))"
      by simp_all
    from dealloc.hyps(2-4) have nf: "\<not> free_at p j"
      using testBit_eq [OF _ _ assms(2), of j p] by simp
    from free_slot [OF assms(2) wf assms(3,4) dealloc.hyps(2,3)] dealloc.hyps(5)
    have wf': "pool_wf SIZE p'" and c: "free_elements_cnt p' = free_elements_cnt p + 1"
      and b: "\<And>i. 0 \<le> i \<Longrightarrow> free_at p' i \<longleftrightarrow> i = j \<or> free_at p i"
      by auto
    have "free_set SIZE p' = insert j (free_set SIZE p)"
      using dealloc.hyps(2,3) b by (auto simp: free_set_def)
    moreover have "j \<notin> free_set SIZE p" using nf by (simp add: free_set_def)
    ultimately have "card (free_set SIZE p') = card (free_set SIZE p) + 1"
      using finite_free_set [of SIZE p] by simp
    with wf' c eq show ?case by simp
  qed
  with bound [of p] show ?thesis
    by (simp add: count_free_card [OF assms(2)])
qed

subsection \<open>Exhausting the pool\<close>

lemma allocated_below_Pool:
  assumes "SIZE \<le> INT_MAX"
  shows "allocated_below SIZE 0 (Pool SIZE)"
  using assms by (simp add: allocated_below_def pool_wf_Pool free_at_Pool) (simp add: Pool_def)

lemma palloc_n_prefix:
  assumes "SIZE \<le> INT_MAX" and "k + n \<le> nat SIZE" and "allocated_below SIZE k p"
  shows "\<exists>p'. palloc_n SIZE E T n p = Some (map (\<lambda>i. elem_addr E T (int i)) [k..<k + n], p') \<and>
      allocated_below SIZE (k + n) p'"
  using assms(2,3)
proof (induction n arbitrary: k p)
  case 0
  then show ?case by simp
next
  case (Suc n)
  from Suc.prems have k: "int k < SIZE" by simp
  from Suc.prems(2) have wf: "pool_wf SIZE p" and cnt: "free_elements_cnt p = SIZE - int k"
    and fr: "\<And>i. 0 \<le> i \<Longrightarrow> i < SIZE \<Longrightarrow> free_at p i = (int k \<le> i)"
    by (simp_all add: allocated_below_def)
  have pos: "0 < free_elements_cnt p" using cnt k by simp
  have here: "free_at p (int k)" using fr [of "int k"] k by simp
  have least: "\<not> free_at p i" if "0 \<le> i" "i < int k" for i
    using fr [of i] that k by simp
  from palloc_found [OF assms(1) wf pos _ k here least, of E T] obtain q where
    q: "palloc SIZE E T p = Some (elem_addr E T (int k), q)" "pool_wf SIZE q"
    "free_elements_cnt q = free_elements_cnt p - 1"
    "\<And>i. 0 \<le> i \<Longrightarrow> free_at q i \<longleftrightarrow> i \<noteq> int k \<and> free_at p i"
    by auto
  have "allocated_below SIZE (Suc k) q"
    unfolding allocated_below_def
  proof (intro conjI allI impI)
    show "pool_wf SIZE q" by (rule q(2))
    show "free_elements_cnt q = SIZE - int (Suc k)" using q(3) cnt by simp
    fix i assume "0 \<le> i \<and> i < SIZE"
    then show "free_at q i = (int (Suc k) \<le> i)"
      using q(4) [of i] fr [of i] by auto
  qed
  moreover from Suc.prems(1) have "Suc k + n \<le> nat SIZE" by simp
  ultimately obtain p' where
    r: "palloc_n SIZE E T n q = Some (map (\<lambda>i. elem_addr E T (int i)) [Suc k..<Suc k + n], p')"
    and a: "allocated_below SIZE (Suc k + n) p'"
    using Suc.IH [of "Suc k" q] by blast
  have l: "map (\<lambda>i. elem_addr E T (int i)) [k..<k + Suc n] =
      elem_addr E T (int k) # map (\<lambda>i. elem_addr E T (int i)) [Suc k..<Suc k + n]"
  proof -
    have "k < k + Suc n" by simp
    then have "[k..<k + Suc n] = k # [Suc k..<k + Suc n]" by (rule upt_conv_Cons)
    then show ?thesis by (simp del: upt_Suc)
  qed
  have "palloc_n SIZE E T (Suc n) p =
      Some (elem_addr E T (int k) # map (\<lambda>i. elem_addr E T (int i)) [Suc k..<Suc k + n], p')"
    using q(1) r by simp
  moreover have "allocated_below SIZE (k + Suc n) p'"
    using a by simp
  ultimately show ?case
    unfolding l by blast
qed

lemma slot_addrs_distinct:
  assumes "0 < T"
  shows "distinct (map (\<lambda>i. elem_addr E T (int i)) [0..<n])"
proof -
  have "inj_on (\<lambda>i. elem_addr E T (int i)) (set [0..<n])"
    using assms by (intro inj_onI) (simp add: elem_addr_inj)
  then show ?thesis by (simp add: distinct_map)
qed

lemma slot_addrs_not_NULL:
  assumes "E \<noteq> NULL"
  shows "NULL \<notin> set (map (\<lambda>i. elem_addr E T (int i)) [0..<n])"
proof
  assume "NULL \<in> set (map (\<lambda>i. elem_addr E T (int i)) [0..<n])"
  then obtain i where "NULL = elem_addr E T (int i)" by auto
  then have "elem_addr E T (int i) = NULL" by simp
  with elem_addr_not_NULL [OF assms] show False by blast
qed

text \<open>
  Claim C2. For a pool of \<open>SIZE \<ge> 1\<close> slots: \<open>size()\<close> is \<open>SIZE\<close> after construction;
  \<open>SIZE\<close> calls of \<open>palloc\<close> return the addresses of slots \<open>0, 1, \<dots>, SIZE - 1\<close>,
  which are pairwise distinct and not \<open>NULL\<close>; the next \<open>palloc\<close> returns \<open>NULL\<close> and
  \<open>size()\<close> is then 0.
\<close>

theorem pool_exhaustion:
  assumes "1 \<le> SIZE" and "SIZE \<le> INT_MAX" and "E \<noteq> NULL" and "0 < T"
  shows "pool_size (Pool SIZE) = SIZE \<and>
    map_option fst (palloc_n SIZE E T (nat SIZE) (Pool SIZE)) =
      Some (map (\<lambda>i. elem_addr E T (int i)) [0..<nat SIZE]) \<and>
    distinct (map (\<lambda>i. elem_addr E T (int i)) [0..<nat SIZE]) \<and>
    NULL \<notin> set (map (\<lambda>i. elem_addr E T (int i)) [0..<nat SIZE]) \<and>
    Option.bind (palloc_n SIZE E T (nat SIZE) (Pool SIZE))
      (\<lambda>(as, p). map_option (\<lambda>(a, p'). (a, pool_size p')) (palloc SIZE E T p)) = Some (NULL, 0)"
proof -
  have "0 + nat SIZE \<le> nat SIZE" by simp
  from palloc_n_prefix [OF assms(2) this allocated_below_Pool [OF assms(2)], of E T]
  obtain p where
    n: "palloc_n SIZE E T (nat SIZE) (Pool SIZE) =
          Some (map (\<lambda>i. elem_addr E T (int i)) [0..<nat SIZE], p)"
    and a: "allocated_below SIZE (nat SIZE) p"
    by auto
  from a assms(1) have "free_elements_cnt p = 0"
    by (simp add: allocated_below_def)
  then have e: "palloc SIZE E T p = Some (NULL, p)" "pool_size p = 0"
    using assms(2) by (simp_all add: palloc_nothing pool_size_def)
  have "pool_size (Pool SIZE) = SIZE"
    by (simp add: pool_size_def Pool_def)
  with n e slot_addrs_distinct [OF assms(4)] slot_addrs_not_NULL [OF assms(3)]
  show ?thesis by simp
qed

text \<open>Three slots of four bytes at address 4096.\<close>

theorem pool_exhaustion_witness:
  "pool_size (Pool 3) = 3 \<and>
   map_option fst (palloc_n 3 4096 4 3 (Pool 3)) = Some [4096, 4100, 4104] \<and>
   distinct [4096 :: nat, 4100, 4104] \<and>
   Option.bind (palloc_n 3 4096 4 3 (Pool 3))
      (\<lambda>(as, p). map_option (\<lambda>(a, p'). (a, pool_size p')) (palloc 3 4096 4 p)) = Some (NULL, 0)"
proof -
  have a: "map (\<lambda>i. elem_addr 4096 4 (int i)) [0..<nat 3] = [4096, 4100, 4104]"
    by (simp add: elem_addr_def upt_conv_Cons)
  have "(1::int) \<le> 3" "(3::int) \<le> INT_MAX" "(4096::nat) \<noteq> NULL" "(0::nat) < 4"
    by (simp_all add: INT_MAX_def NULL_def)
  from pool_exhaustion [OF this] show ?thesis
    unfolding a by simp
qed

subsection \<open>Allocation order\<close>

lemma lowest_free_alloc:
  assumes "0 \<le> SIZE" and "SIZE \<le> INT_MAX" and "E \<noteq> NULL" and "0 < T"
    and "pool_reachable SIZE E T p"
    and "0 \<le> j" and "j < SIZE" and "free_at p j"
    and "\<And>i. 0 \<le> i \<Longrightarrow> i < j \<Longrightarrow> \<not> free_at p i"
  obtains p' where "palloc SIZE E T p = Some (elem_addr E T j, p')"
    and "free_elements_cnt p' = free_elements_cnt p - 1"
    and "\<And>i. 0 \<le> i \<Longrightarrow> free_at p' i \<longleftrightarrow> i \<noteq> j \<and> free_at p i"
proof -
  from reachable_counts [OF assms(1-5)] have wf: "pool_wf SIZE p"
    and le: "int (card (free_set SIZE p)) \<le> free_elements_cnt p"
    by simp_all
  have "j \<in> free_set SIZE p" using assms(6-8) by (simp add: free_set_def)
  then have "0 < card (free_set SIZE p)"
    using finite_free_set [of SIZE p] by (auto simp: card_gt_0_iff)
  with le have pos: "0 < free_elements_cnt p" by simp
  from palloc_found [OF assms(2) wf pos assms(6-9), of E T] that show thesis
    by blast
qed

text \<open>
  Claim C7. In every reachable state: if slot \<open>j\<close> is free and all slots below it are
  allocated, \<open>palloc\<close> returns the address of slot \<open>j\<close>; \<open>free\<close> of the address of
  an allocated slot \<open>j\<close> adds exactly 1 to \<open>size()\<close> and marks the slot free, and if
  no lower slot is free the next \<open>palloc\<close> returns that very address; and when all
  slots are allocated and slot 2 and then slot 0 are freed, the next \<open>palloc\<close> returns
  slot 0.
\<close>

theorem palloc_lowest_free:
  assumes "1 \<le> SIZE" and "SIZE \<le> INT_MAX" and "E \<noteq> NULL" and "0 < T"
    and "pool_reachable SIZE E T p"
  shows "(0 \<le> j \<and> j < SIZE \<and> testBit SIZE p j = Some True \<and>
       (\<forall>i. 0 \<le> i \<and> i < j \<longrightarrow> testBit SIZE p i = Some False) \<longrightarrow>
       map_option fst (palloc SIZE E T p) = Some (elem_addr E T j)) \<and>
    (0 \<le> j \<and> j < SIZE \<and> testBit SIZE p j = Some False \<longrightarrow>
       (\<exists>p'. free SIZE E T p (elem_addr E T j) = Some p' \<and>
          pool_size p' = pool_size p + 1 \<and> testBit SIZE p' j = Some True \<and>
          ((\<forall>i. 0 \<le> i \<and> i < j \<longrightarrow> testBit SIZE p i = Some False) \<longrightarrow>
             map_option fst (palloc SIZE E T p') = Some (elem_addr E T j)))) \<and>
    (3 \<le> SIZE \<and> (\<forall>i. 0 \<le> i \<and> i < SIZE \<longrightarrow> testBit SIZE p i = Some False) \<longrightarrow>
       Option.bind (free SIZE E T p (elem_addr E T 2))
         (\<lambda>p1. Option.bind (free SIZE E T p1 (elem_addr E T 0))
            (\<lambda>p2. map_option fst (palloc SIZE E T p2))) = Some (elem_addr E T 0))"
proof -
  from assms(1) have nn: "0 \<le> SIZE" by simp
  note reach = lowest_free_alloc [OF nn assms(2-4)]
  from reachable_counts [OF nn assms(2-5)] have wf: "pool_wf SIZE p" by simp
  have tb: "testBit SIZE q i = Some (free_at q i)" if "0 \<le> i" "i < SIZE" for q i
    using that assms(2) by (rule testBit_eq)
  have first: "map_option fst (palloc SIZE E T p) = Some (elem_addr E T j)"
    if "0 \<le> j \<and> j < SIZE \<and> testBit SIZE p j = Some True \<and>
       (\<forall>i. 0 \<le> i \<and> i < j \<longrightarrow> testBit SIZE p i = Some False)"
  proof -
    from that have j: "0 \<le> j" "j < SIZE" by simp_all
    from that tb [OF j] have "free_at p j" by simp
    note j = j this
    have "\<not> free_at p i" if "0 \<le> i" "i < j" for i
      using \<open>0 \<le> j \<and> _\<close> that j(2) tb [of i p] by simp
    with reach [OF assms(5) j] show ?thesis by (metis fst_conv option.simps(9))
  qed
  have second: "\<exists>p'. free SIZE E T p (elem_addr E T j) = Some p' \<and>
          pool_size p' = pool_size p + 1 \<and> testBit SIZE p' j = Some True \<and>
          ((\<forall>i. 0 \<le> i \<and> i < j \<longrightarrow> testBit SIZE p i = Some False) \<longrightarrow>
             map_option fst (palloc SIZE E T p') = Some (elem_addr E T j))"
    if "0 \<le> j \<and> j < SIZE \<and> testBit SIZE p j = Some False"
  proof -
    from that have j: "0 \<le> j" "j < SIZE" by simp_all
    from free_slot [OF assms(2) wf assms(3,4) j] obtain p' where
      f: "free SIZE E T p (elem_addr E T j) = Some p'"
      and c: "free_elements_cnt p' = free_elements_cnt p + 1"
      and b: "\<And>i. 0 \<le> i \<Longrightarrow> free_at p' i \<longleftrightarrow> i = j \<or> free_at p i"
      by blast
    have r': "pool_reachable SIZE E T p'"
      using assms(5) f by (rule pool_reachable.dealloc)
    have here: "free_at p' j" using b [OF j(1)] by simp
    have "map_option fst (palloc SIZE E T p') = Some (elem_addr E T j)"
      if low: "\<forall>i. 0 \<le> i \<and> i < j \<longrightarrow> testBit SIZE p i = Some False"
    proof -
      have "\<not> free_at p' i" if "0 \<le> i" "i < j" for i
        using low that j(2) tb [of i p] b [of i] by simp
      with reach [OF r' j here] show ?thesis by (metis fst_conv option.simps(9))
    qed
    with f c here j show ?thesis
      by (simp add: pool_size_def tb)
  qed
  have third: "Option.bind (free SIZE E T p (elem_addr E T 2))
         (\<lambda>p1. Option.bind (free SIZE E T p1 (elem_addr E T 0))
            (\<lambda>p2. map_option fst (palloc SIZE E T p2))) = Some (elem_addr E T 0)"
    if "3 \<le> SIZE \<and> (\<forall>i. 0 \<le> i \<and> i < SIZE \<longrightarrow> testBit SIZE p i = Some False)"
  proof -
    from that have s: "(2::int) < SIZE" "(0::int) < SIZE"
      and none: "\<And>i. 0 \<le> i \<Longrightarrow> i < SIZE \<Longrightarrow> \<not> free_at p i"
      using tb by auto
    from free_slot [OF assms(2) wf assms(3,4) _ s(1)] obtain p1 where
      f1: "free SIZE E T p (elem_addr E T 2) = Some p1" and wf1: "pool_wf SIZE p1"
      and b1: "\<And>i. 0 \<le> i \<Longrightarrow> free_at p1 i \<longleftrightarrow> i = 2 \<or> free_at p i"
      by auto
    from free_slot [OF assms(2) wf1 assms(3,4) _ s(2)] obtain p2 where
      f2: "free SIZE E T p1 (elem_addr E T 0) = Some p2"
      and b2: "\<And>i. 0 \<le> i \<Longrightarrow> free_at p2 i \<longleftrightarrow> i = 0 \<or> free_at p1 i"
      by auto
    have r2: "pool_reachable SIZE E T p2"
      using assms(5) f1 f2 by (blast intro: pool_reachable.dealloc)
    have "free_at p2 0" using b2 [of 0] by simp
    from reach [OF r2 _ s(2) this] have "map_option fst (palloc SIZE E T p2) = Some (elem_addr E T 0)"
      by (metis fst_conv option.simps(9) less_le_not_le order_refl)
    with f1 f2 show ?thesis by simp
  qed
  from first second third show ?thesis by blast
qed

lemma palloc_n_reachable:
  assumes "pool_reachable SIZE E T p" and "palloc_n SIZE E T n p = Some (as, p')"
  shows "pool_reachable SIZE E T p'"
  using assms
proof (induction n arbitrary: p as)
  case 0
  then show ?case by simp
next
  case (Suc n)
  from Suc.prems(2) obtain a q bs where
    a: "palloc SIZE E T p = Some (a, q)" and r: "palloc_n SIZE E T n q = Some (bs, p')"
    by (auto split: option.splits)
  from Suc.prems(1) a have "pool_reachable SIZE E T q" by (rule pool_reachable.alloc)
  then show ?case using r by (rule Suc.IH)
qed

lemma three_allocated:
  "palloc_n 3 4096 4 3 (Pool 3) = Some ([4096, 4100, 4104], \<lparr>info = [0xF8], free_elements_cnt = 0\<rparr>)"
  by code_simp

text \<open>
  A pool of three slots, all allocated: slot 1 is freed and allocated again; slots 2 and
  0 are freed and the next allocation is slot 0.
\<close>

theorem palloc_lowest_free_witness:
  "pool_reachable 3 4096 4 \<lparr>info = [0xF8], free_elements_cnt = 0\<rparr> \<and>
   testBit 3 \<lparr>info = [0xF8], free_elements_cnt = 0\<rparr> 1 = Some False \<and>
   free 3 4096 4 \<lparr>info = [0xF8], free_elements_cnt = 0\<rparr> 4100 =
     Some \<lparr>info = [0xFA], free_elements_cnt = 1\<rparr> \<and>
   pool_reachable 3 4096 4 \<lparr>info = [0xFA], free_elements_cnt = 1\<rparr> \<and>
   map_option fst (palloc 3 4096 4 \<lparr>info = [0xFA], free_elements_cnt = 1\<rparr>) = Some 4100 \<and>
   Option.bind (free 3 4096 4 \<lparr>info = [0xF8], free_elements_cnt = 0\<rparr> 4104)
     (\<lambda>p1. Option.bind (free 3 4096 4 p1 4096)
        (\<lambda>p2. map_option fst (palloc 3 4096 4 p2))) = Some 4096"
proof -
  let ?p = "\<lparr>info = [0xF8], free_elements_cnt = 0\<rparr>"
  let ?q = "\<lparr>info = [0xFA], free_elements_cnt = 1\<rparr>"
  have par: "(1::int) \<le> 3" "(3::int) \<le> INT_MAX" "(4096::nat) \<noteq> NULL" "(0::nat) < 4"
    by (simp_all add: INT_MAX_def NULL_def)
  have r: "pool_reachable 3 4096 4 ?p"
    using pool_reachable.construct three_allocated by (rule palloc_n_reachable)
  have f: "free 3 4096 4 ?p 4100 = Some ?q"
    by code_simp
  have r': "pool_reachable 3 4096 4 ?q"
    using r f by (rule pool_reachable.dealloc)
  have tp: "testBit 3 ?p 0 = Some False" "testBit 3 ?p 1 = Some False"
    "testBit 3 ?p 2 = Some False"
    by code_simp+
  have t: "testBit 3 ?p i = Some False" if "0 \<le> i \<and> i < 3" for i
  proof -
    from that have "i = 0 \<or> i = 1 \<or> i = 2" by auto
    with tp show ?thesis by auto
  qed
  have tq: "testBit 3 ?q 1 = Some True" "testBit 3 ?q 0 = Some False"
    by code_simp+
  have low: "\<forall>i. 0 \<le> i \<and> i < 1 \<longrightarrow> testBit 3 ?q i = Some False"
    using tq(2) by (auto simp: order.order_iff_strict)
  have a: "elem_addr 4096 4 0 = 4096" "elem_addr 4096 4 1 = 4100" "elem_addr 4096 4 2 = 4104"
    by (simp_all add: elem_addr_def)
  from palloc_lowest_free [OF par r', of 1] tq(1) low
  have one: "map_option fst (palloc 3 4096 4 ?q) = Some 4100"
    by (simp add: a)
  from palloc_lowest_free [OF par r, of 1] t
  have two: "Option.bind (free 3 4096 4 ?p 4104)
     (\<lambda>p1. Option.bind (free 3 4096 4 p1 4096)
        (\<lambda>p2. map_option fst (palloc 3 4096 4 p2))) = Some 4096"
    by (simp add: a)
  from r r' f one two t [of 1] show ?thesis by simp
qed

subsection \<open>Release of a slot that is not allocated\<close>

text \<open>
  Claim C3 says that \<open>free\<close> of a pointer to a slot that is already free changes
  nothing. The loop of \<open>free\<close> compares addresses only: it never tests the bit of the
  slot it finds. In a pool of one slot, after \<open>palloc\<close> and \<open>free\<close> of the pointer
  the slot is free and \<open>size()\<close> is 1; a second \<open>free\<close> of the same pointer makes
  \<open>size()\<close> 2.
\<close>

theorem double_free_counts:
  "Option.bind (palloc 1 4096 4 (Pool 1))
     (\<lambda>(a, p1). Option.bind (free 1 4096 4 p1 a)
        (\<lambda>p2. Option.bind (free 1 4096 4 p2 a)
           (\<lambda>p3. Some (a, testBit 1 p1 0, testBit 1 p2 0, pool_size p2, pool_size p3)))) =
   Some (4096, Some False, Some True, 1, 2)"
  by code_simp

text \<open>
  Claim C4 says that the counter stays within \<open>0\<close> and \<open>SIZE\<close> and equals the number
  of free bits in every reachable state. \<open>free\<close> of the address of the free slot of a
  new pool of one slot gives a reachable state whose counter is 2, with one free bit.
\<close>

theorem free_count_exceeds:
  "pool_reachable 1 4096 4 \<lparr>info = [0xFF], free_elements_cnt = 2\<rparr> \<and>
   free_elements_cnt \<lparr>info = [0xFF], free_elements_cnt = 2\<rparr> = 2 \<and>
   count_free 1 \<lparr>info = [0xFF], free_elements_cnt = 2\<rparr> = 1"
proof -
  have "free 1 4096 4 (Pool 1) 4096 = Some \<lparr>info = [0xFF], free_elements_cnt = 2\<rparr>"
    by code_simp
  with pool_reachable.construct have "pool_reachable 1 4096 4 \<lparr>info = [0xFF], free_elements_cnt = 2\<rparr>"
    by (rule pool_reachable.dealloc)
  moreover have "count_free 1 \<lparr>info = [0xFF], free_elements_cnt = 2\<rparr> = 1"
    by code_simp
  ultimately show ?thesis by simp
qed

end
